theory Spec2Isabelle
  imports Complex_Main "HOL-Library.Sublist" "HOL-Library.AList"
begin

section \<open>Python values used by the conservation utilities\<close>

text \<open>
  A score is a Python/numpy float. The only special value the utilities test for is
  not-a-number (\<^verbatim>\<open>np.isnan\<close>, the nan-aware reductions), so a float is either \<open>NaN\<close>
  or a finite value; finite values are idealised as reals (no rounding).
\<close>

datatype pyfloat = NaN | Fin real

text \<open>Python's \<^verbatim>\<open>a > b\<close> on floats: false as soon as one side is not-a-number.\<close>

fun py_gt :: "pyfloat \<Rightarrow> pyfloat \<Rightarrow> bool" where
  "py_gt (Fin a) (Fin b) = (b < a)"
| "py_gt _ _ = False"

fun isnan :: "pyfloat \<Rightarrow> bool" where
  "isnan NaN = True"
| "isnan (Fin _) = False"

text \<open>The values a nan-aware reduction keeps: the entries that are not NaN, in order.\<close>

fun non_nan :: "pyfloat list \<Rightarrow> real list" where
  "non_nan [] = []"
| "non_nan (NaN # xs) = non_nan xs"
| "non_nan (Fin v # xs) = v # non_nan xs"

text \<open>
  \<^verbatim>\<open>str(n)\<close> for an integer, as an f-string renders it: decimal digits, a leading minus
  sign for a negative number.
\<close>

definition digit_char :: "nat \<Rightarrow> char" where
  "digit_char d = char_of (of_char CHR ''0'' + d)"

fun str_nat :: "nat \<Rightarrow> string" where
  "str_nat n = (if n < 10 then [digit_char n] else str_nat (n div 10) @ [digit_char (n mod 10)])"

definition str_int :: "int \<Rightarrow> string" where
  "str_int i = (if i < 0 then CHR ''-'' # str_nat (nat (- i)) else str_nat (nat i))"

text \<open>
  A Python slice \<^verbatim>\<open>xs[i:j]\<close>: a negative bound counts from the end, and both bounds are
  clamped to the list.
\<close>

definition slice_bound :: "int \<Rightarrow> int \<Rightarrow> nat" where
  "slice_bound n k = nat (if k < 0 then max 0 (k + n) else min k n)"

definition py_slice :: "'a list \<Rightarrow> int \<Rightarrow> int \<Rightarrow> 'a list" where
  "py_slice xs i j =
     (let n = int (length xs); lo = slice_bound n i; hi = slice_bound n j
      in take (hi - lo) (drop lo xs))"

text \<open>\<^verbatim>\<open>range(n)\<close> as the list of its integers.\<close>

definition py_range :: "int \<Rightarrow> int list" where
  "py_range n = map int [0..<nat n]"

section \<open>numpy's nan-aware reductions\<close>

text \<open>
  Each reduction drops the NaN entries first; on an array with no other entry numpy warns
  and returns NaN.
\<close>

definition nanmean :: "pyfloat list \<Rightarrow> pyfloat" where
  "nanmean xs =
     (case non_nan xs of [] \<Rightarrow> NaN | v # vs \<Rightarrow> Fin (sum_list (v # vs) / real (length (v # vs))))"

definition nanmax :: "pyfloat list \<Rightarrow> pyfloat" where
  "nanmax xs = (case non_nan xs of [] \<Rightarrow> NaN | v # vs \<Rightarrow> Fin (fold max vs v))"

text \<open>
  \<^verbatim>\<open>np.nanpercentile(xs, q)\<close> with the default linear interpolation: position
  \<open>q / 100 * (n - 1)\<close> in the sorted values, interpolated between its two neighbours.
\<close>

definition nanpercentile :: "pyfloat list \<Rightarrow> real \<Rightarrow> pyfloat" where
  "nanpercentile xs q =
     (case sort (non_nan xs) of
        [] \<Rightarrow> NaN
      | v # vs \<Rightarrow>
          (let s = v # vs;
               pos = q / 100 * real (length s - 1);
               lo = nat \<lfloor>pos\<rfloor>;
               hi = min (lo + 1) (length s - 1)
           in Fin (s ! lo + (s ! hi - s ! lo) * (pos - real lo))))"

definition nanmedian :: "pyfloat list \<Rightarrow> pyfloat" where
  "nanmedian xs =
     (case sort (non_nan xs) of
        [] \<Rightarrow> NaN
      | v # vs \<Rightarrow>
          (let s = v # vs; n = length s
           in if odd n then Fin (s ! (n div 2))
              else Fin ((s ! (n div 2 - 1) + s ! (n div 2)) / 2)))"

section \<open>ConservationAnalyzer\<close>

text \<open>
  A metric value: the reductions give floats, \<^verbatim>\<open>_get_longest_positive_run\<close> gives an int.
  A metric mapping is a Python dict, kept as an association list in insertion order.
\<close>

datatype metric = MFloat pyfloat | MInt int

type_synonym metrics = "(string \<times> metric) list"

text \<open>\<^verbatim>\<open>d.update(other)\<close>: every item of \<open>other\<close> is stored into \<open>d\<close>, in order.\<close>

definition dict_update :: "('k \<times> 'v) list \<Rightarrow> ('k \<times> 'v) list \<Rightarrow> ('k \<times> 'v) list" where
  "dict_update d other = fold (\<lambda>(k, v) acc. AList.update k v acc) other d"

text \<open>
  \<^verbatim>\<open>_get_window_scores\<close>: one mean over the whole array when it is shorter than the window,
  else the mean of \<^verbatim>\<open>scores[i:i+window_size]\<close> for every \<open>i\<close> of
  \<^verbatim>\<open>range(len(scores) - window_size + 1)\<close>.
\<close>

definition get_window_scores :: "int \<Rightarrow> pyfloat list \<Rightarrow> pyfloat list" where
  "get_window_scores window_size scores =
     (if int (length scores) < window_size then [nanmean scores]
      else map (\<lambda>i. nanmean (py_slice scores i (i + window_size)))
             (py_range (int (length scores) - window_size + 1)))"

text \<open>
  Python's builtin \<^verbatim>\<open>max\<close> over a non-empty list: it keeps the first item and replaces it
  by a later one only when \<^verbatim>\<open>item > best\<close> holds.
\<close>

fun py_max_from :: "pyfloat \<Rightarrow> pyfloat list \<Rightarrow> pyfloat" where
  "py_max_from best [] = best"
| "py_max_from best (x # xs) = py_max_from (if py_gt x best then x else best) xs"

text \<open>\<^verbatim>\<open>max(window_scores) if window_scores else np.nan\<close>\<close>

definition max_window :: "int \<Rightarrow> pyfloat list \<Rightarrow> pyfloat" where
  "max_window window_size scores =
     (case get_window_scores window_size scores of
        [] \<Rightarrow> NaN
      | w # ws \<Rightarrow> py_max_from w ws)"

text \<open>
  \<^verbatim>\<open>_get_longest_positive_run\<close>: the loop state is \<open>(current_run, max_run)\<close>, both 0 at
  the start.
\<close>

fun positive_run_loop :: "pyfloat list \<Rightarrow> int \<Rightarrow> int \<Rightarrow> int" where
  "positive_run_loop [] current_run max_run = max_run"
| "positive_run_loop (score # scores) current_run max_run =
     (if \<not> isnan score \<and> py_gt score (Fin 0)
      then positive_run_loop scores (current_run + 1) (max max_run (current_run + 1))
      else positive_run_loop scores 0 max_run)"

definition get_longest_positive_run :: "pyfloat list \<Rightarrow> int" where
  "get_longest_positive_run scores = positive_run_loop scores 0 0"

text \<open>
  \<^verbatim>\<open>_analyze_score_array\<close>: no entry at all for \<^verbatim>\<open>None\<close> or an empty array, else the five
  reductions, then \<^verbatim>\<open>max_window\<close>, then \<^verbatim>\<open>longest_positive_run\<close>.
\<close>

definition analyze_score_array :: "int \<Rightarrow> pyfloat list option \<Rightarrow> string \<Rightarrow> metrics" where
  "analyze_score_array window_size scores pfx =
     (case scores of
        None \<Rightarrow> []
      | Some xs \<Rightarrow>
          if length xs = 0 then []
          else
            [(pfx @ ''_mean'', MFloat (nanmean xs)),
             (pfx @ ''_median'', MFloat (nanmedian xs)),
             (pfx @ ''_max'', MFloat (nanmax xs)),
             (pfx @ ''_q75'', MFloat (nanpercentile xs 75)),
             (pfx @ ''_start'', MFloat (nanmean (py_slice xs 0 15))),
             (pfx @ ''_max_window'', MFloat (max_window window_size xs)),
             (pfx @ ''_longest_positive_run'', MInt (get_longest_positive_run xs))])"

text \<open>
  \<^verbatim>\<open>calculate_metrics\<close>: the frames of the dict in its order, each under the prefix
  \<^verbatim>\<open>phylocsf_frame{frame}\<close>, then the base-level array under \<^verbatim>\<open>phylop\<close> unless it is
  \<^verbatim>\<open>None\<close>.
\<close>

definition frame_prefix :: "int \<Rightarrow> string" where
  "frame_prefix frame = ''phylocsf_frame'' @ str_int frame"

definition calculate_metrics ::
  "int \<Rightarrow> (int \<times> pyfloat list) list \<Rightarrow> pyfloat list option \<Rightarrow> metrics" where
  "calculate_metrics window_size phylocsf_scores phylop_scores =
     (let metrics =
            fold (\<lambda>(frame, scores) metrics.
                    dict_update metrics
                      (analyze_score_array window_size (Some scores) (frame_prefix frame)))
                 phylocsf_scores [];
          metrics =
            (case phylop_scores of
               None \<Rightarrow> metrics
             | Some xs \<Rightarrow> dict_update metrics (analyze_score_array window_size (Some xs) ''phylop''))
      in metrics)"

section \<open>ConservationTracker\<close>

text \<open>
  A bigWig handle is the external track store. Its three queries are \<^verbatim>\<open>chroms()\<close> (the
  catalog: chromosome name to declared length), \<^verbatim>\<open>chroms(chrom)\<close> (one declared length,
  \<^verbatim>\<open>None\<close> for an unknown name) and \<^verbatim>\<open>values(chrom, start, end)\<close>. Each of them may
  raise; an exception is kept with its \<^verbatim>\<open>str()\<close>.
\<close>

datatype exn = Exception string

record bigwig =
  chroms :: "exn + (string \<rightharpoonup> int)"
  chroms_of :: "string \<Rightarrow> exn + int option"
  bw_values :: "string \<Rightarrow> int \<Rightarrow> int \<Rightarrow> exn + pyfloat list"

record tracker =
  phylocsf_type :: string
  phylocsf_tracks :: "string \<rightharpoonup> bigwig"
  phylop_track :: bigwig

text \<open>\<^verbatim>\<open>f"chr{chrom}" if not chrom.startswith('chr') else chrom\<close>\<close>

definition normalize_chrom :: "string \<Rightarrow> string" where
  "normalize_chrom chrom = (if \<not> prefix ''chr'' chrom then ''chr'' @ chrom else chrom)"

definition quoted :: "string \<Rightarrow> string" where
  "quoted s = CHR 0x27 # s @ [CHR 0x27]"

text \<open>
  The body of the \<^verbatim>\<open>try\<close> block of \<^verbatim>\<open>_get_scores\<close>: \<open>Inl\<close> is an exception raised inside
  it, \<open>Inr\<close> the value it returns. Comparing \<^verbatim>\<open>end\<close> with a length that is \<^verbatim>\<open>None\<close> is a
  \<^verbatim>\<open>TypeError\<close>.
\<close>

definition get_scores_try ::
  "bigwig \<Rightarrow> string \<Rightarrow> int \<Rightarrow> int \<Rightarrow> exn + pyfloat list option" where
  "get_scores_try bw_file chrom start end =
     (case chroms bw_file of
        Inl e \<Rightarrow> Inl e
      | Inr catalog \<Rightarrow>
          if catalog chrom = None then Inr None
          else
            (case chroms_of bw_file chrom of
               Inl e \<Rightarrow> Inl e
             | Inr chrom_length \<Rightarrow>
                 if start < 0 then Inr None
                 else
                   (case chrom_length of
                      None \<Rightarrow>
                        Inl (Exception
                          (quoted ''>'' @ '' not supported between instances of '' @
                           quoted ''int'' @ '' and '' @ quoted ''NoneType''))
                    | Some len \<Rightarrow>
                        if end > len then Inr None
                        else
                          (case bw_values bw_file chrom start end of
                             Inl e \<Rightarrow> Inl e
                           | Inr scores \<Rightarrow> Inr (Some scores)))))"

text \<open>
  \<^verbatim>\<open>_get_scores\<close>: the chromosome name is normalised first, the \<^verbatim>\<open>except Exception\<close>
  handler prints one line and returns \<^verbatim>\<open>None\<close>. The result is the printed lines and the
  returned value.
\<close>

definition get_scores ::
  "bigwig \<Rightarrow> string \<Rightarrow> int \<Rightarrow> int \<Rightarrow> string list \<times> pyfloat list option" where
  "get_scores bw_file chrom start end =
     (let chrom = normalize_chrom chrom
      in case get_scores_try bw_file chrom start end of
           Inr scores \<Rightarrow> ([], scores)
         | Inl (Exception msg) \<Rightarrow>
             ([''Error accessing bigwig for '' @ chrom @ '':'' @ str_int start @ ''-'' @
               str_int end @ '': '' @ msg], None))"

text \<open>
  \<^verbatim>\<open>get_conservation_scores\<close>: one step of the loop over the frames \<^verbatim>\<open>[1, 2, 3]\<close>, on the
  state (printed lines, \<^verbatim>\<open>phylocsf_scores\<close>), then the base-level lookup.
\<close>

definition frame_step ::
  "tracker \<Rightarrow> string \<Rightarrow> int \<Rightarrow> int \<Rightarrow> string \<Rightarrow> int \<Rightarrow>
   string list \<times> (int \<times> pyfloat list) list \<Rightarrow> string list \<times> (int \<times> pyfloat list) list" where
  "frame_step t chrom start end strand frame st =
     (let track_key = strand @ str_int frame
      in case phylocsf_tracks t track_key of
           None \<Rightarrow> st
         | Some bw \<Rightarrow>
             (let r = get_scores bw chrom start end
              in (fst st @ fst r,
                  case snd r of
                    None \<Rightarrow> snd st
                  | Some scores \<Rightarrow> AList.update frame scores (snd st))))"

definition get_conservation_scores ::
  "tracker \<Rightarrow> string \<Rightarrow> int \<Rightarrow> int \<Rightarrow> string \<Rightarrow>
   string list \<times> (int \<times> pyfloat list) list \<times> pyfloat list option" where
  "get_conservation_scores t chrom start end strand =
     (let st = fold (frame_step t chrom start end strand) [1, 2, 3] ([], []);
          r = get_scores (phylop_track t) chrom start end
      in (fst st @ fst r, snd st, snd r))"

section \<open>BEDHandler.write_scored_bed\<close>

text \<open>
  A row of the frame that is written: the six BED columns (with the integer score column
  that \<^verbatim>\<open>load_bed12\<close> gives) and the float column named by \<^verbatim>\<open>score_col\<close>. Column values
  are finite and not null.
\<close>

record bed6 =
  chrom :: string
  chromStart :: int
  chromEnd :: int
  name :: string
  score :: int
  strand :: string

record scored_row = bed6 +
  conservation_score :: real

datatype polars_error = InvalidOperationError

text \<open>\<^verbatim>\<open>pl.col(score_col).min()\<close> and \<^verbatim>\<open>.max()\<close>: null on a column without rows.\<close>

definition col_min :: "real list \<Rightarrow> real option" where
  "col_min xs = (case xs of [] \<Rightarrow> None | x # xs' \<Rightarrow> Some (fold min xs' x))"

definition col_max :: "real list \<Rightarrow> real option" where
  "col_max xs = (case xs of [] \<Rightarrow> None | x # xs' \<Rightarrow> Some (fold max xs' x))"

text \<open>
  The float expression \<^verbatim>\<open>(v - min) / (max - min) * scale_factor\<close>. polars evaluates it in
  float64; the rounding of each step, and the order in which the library carries the steps
  out, are not fixed by this repository, and the \<^verbatim>\<open>floor\<close> that follows is not continuous.
  The float64 value for a non-zero denominator is therefore a parameter, \<open>float_eval\<close>,
  applied to the value, the minimum, the maximum and the scale factor. A zero denominator
  means that the column is constant, so the numerator is zero as well and the result is
  NaN (\<open>0.0 / 0.0\<close>), which the product and \<^verbatim>\<open>floor\<close> keep.
\<close>

type_synonym float_eval = "real \<Rightarrow> real \<Rightarrow> real \<Rightarrow> real \<Rightarrow> pyfloat"

definition scaled_score :: "float_eval \<Rightarrow> real \<Rightarrow> real \<Rightarrow> real \<Rightarrow> real \<Rightarrow> pyfloat" where
  "scaled_score float_eval v mn mx scale_factor =
     (if mx - mn = 0 then NaN else float_eval v mn mx scale_factor)"

fun float_floor :: "pyfloat \<Rightarrow> pyfloat" where
  "float_floor NaN = NaN"
| "float_floor (Fin x) = Fin (of_int \<lfloor>x\<rfloor>)"

text \<open>
  \<^verbatim>\<open>.cast(pl.Int64)\<close> is a strict cast: a value without a 64-bit integer (NaN, or out of
  range) makes the whole expression fail.
\<close>

fun cast_int64 :: "pyfloat \<Rightarrow> polars_error + int" where
  "cast_int64 NaN = Inl InvalidOperationError"
| "cast_int64 (Fin x) =
     (if - (2 ^ 63) \<le> x \<and> x < 2 ^ 63 then Inr (if 0 \<le> x then \<lfloor>x\<rfloor> else \<lceil>x\<rceil>)
      else Inl InvalidOperationError)"

definition clip :: "int \<Rightarrow> int \<Rightarrow> int \<Rightarrow> int" where
  "clip lo hi x = (if x < lo then lo else if hi < x then hi else x)"

definition normalized_score ::
  "float_eval \<Rightarrow> real \<Rightarrow> real \<Rightarrow> real \<Rightarrow> real \<Rightarrow> polars_error + int" where
  "normalized_score float_eval v mn mx scale_factor =
     (case cast_int64 (float_floor (scaled_score float_eval v mn mx scale_factor)) of
        Inl e \<Rightarrow> Inl e
      | Inr n \<Rightarrow> Inr (clip 0 1000 n))"

text \<open>The new \<^verbatim>\<open>score\<close> column, row by row; the first failing cast fails the frame.\<close>

fun score_column ::
  "float_eval \<Rightarrow> real \<Rightarrow> real \<Rightarrow> real \<Rightarrow> scored_row list \<Rightarrow> polars_error + bed6 list" where
  "score_column float_eval mn mx scale_factor [] = Inr []"
| "score_column float_eval mn mx scale_factor (r # rs) =
     (case normalized_score float_eval (conservation_score r) mn mx scale_factor of
        Inl e \<Rightarrow> Inl e
      | Inr n \<Rightarrow>
          (case score_column float_eval mn mx scale_factor rs of
             Inl e \<Rightarrow> Inl e
           | Inr out \<Rightarrow>
               Inr (\<lparr>chrom = chrom r, chromStart = chromStart r, chromEnd = chromEnd r,
                     name = name r, score = n, strand = strand r\<rparr> # out)))"

text \<open>
  \<^verbatim>\<open>write_scored_bed\<close>: the rows handed to \<^verbatim>\<open>write_csv\<close>, or the error that stops the
  call before anything is written.
\<close>

definition write_scored_bed ::
  "float_eval \<Rightarrow> scored_row list \<Rightarrow> real \<Rightarrow> polars_error + bed6 list" where
  "write_scored_bed float_eval df scale_factor =
     (case (col_min (map conservation_score df), col_max (map conservation_score df)) of
        (Some mn, Some mx) \<Rightarrow> score_column float_eval mn mx scale_factor df
      | _ \<Rightarrow> Inr [])"

section \<open>The name deduplicator\<close>

text \<open>
  Text is ASCII. \<^verbatim>\<open>str.strip()\<close> removes the whitespace characters at both ends: tab,
  line feed, vertical tab, form feed, carriage return, the four separators 0x1C to 0x1F
  and the space.
\<close>

definition tab :: char where
  "tab = CHR 0x09"

definition newline :: char where
  "newline = CHR 0x0A"

definition is_space :: "char \<Rightarrow> bool" where
  "is_space c \<longleftrightarrow>
     c \<in> {CHR 0x09, CHR 0x0A, CHR 0x0B, CHR 0x0C, CHR 0x0D, CHR 0x1C, CHR 0x1D, CHR 0x1E,
          CHR 0x1F, CHR 0x20}"

definition strip :: "string \<Rightarrow> string" where
  "strip s = rev (dropWhile is_space (rev (dropWhile is_space s)))"

text \<open>\<^verbatim>\<open>s.split('\t')\<close>: never empty, the empty string gives one empty field.\<close>

fun split_tab :: "string \<Rightarrow> string list" where
  "split_tab [] = [[]]"
| "split_tab (c # cs) =
     (if c = tab then [] # split_tab cs
      else (case split_tab cs of [] \<Rightarrow> [[c]] | f # fs \<Rightarrow> (c # f) # fs))"

text \<open>\<^verbatim>\<open>'\t'.join(fields)\<close>\<close>

fun join_tab :: "string list \<Rightarrow> string" where
  "join_tab [] = []"
| "join_tab [f] = f"
| "join_tab (f # g # fs) = f @ tab # join_tab (g # fs)"

text \<open>
  Iterating over a text file, on its text after newline translation: each line with its
  line feed, the last one without when the file does not end in one.
\<close>

fun file_lines :: "string \<Rightarrow> string list" where
  "file_lines [] = []"
| "file_lines (c # cs) =
     (if c = newline then [c] # file_lines cs
      else (case file_lines cs of [] \<Rightarrow> [[c]] | l # ls \<Rightarrow> (c # l) # ls))"

text \<open>
  The reading loop of \<^verbatim>\<open>make_names_unique\<close>, on the state (\<^verbatim>\<open>name_counts\<close>, \<^verbatim>\<open>lines\<close>);
  \<^verbatim>\<open>name_counts\<close> is a \<^verbatim>\<open>defaultdict(int)\<close>, so every name has a count, 0 at the start.
\<close>

fun dedup_loop :: "string list \<Rightarrow> (string \<Rightarrow> int) \<Rightarrow> string list \<Rightarrow> string list" where
  "dedup_loop [] name_counts lines = lines"
| "dedup_loop (line # rest) name_counts lines =
     (let fields = split_tab (strip line)
      in if length fields \<ge> 4 then
           (let nm = fields ! 3;
                name_counts = name_counts(nm := name_counts nm + 1)
            in if name_counts nm > 1
               then dedup_loop rest name_counts
                      (lines @ [join_tab (fields[3 := nm @ ''_dup'' @ str_int (name_counts nm - 1)])])
               else dedup_loop rest name_counts (lines @ [join_tab fields]))
         else dedup_loop rest name_counts (lines @ [join_tab fields]))"

definition dedup_lines :: "string list \<Rightarrow> string list" where
  "dedup_lines input_lines = dedup_loop input_lines (\<lambda>_. 0) []"

text \<open>\<^verbatim>\<open>make_names_unique\<close>, from the text of the input file to the text of the output file.\<close>

definition make_names_unique :: "string \<Rightarrow> string" where
  "make_names_unique content = concat (map (\<lambda>line. line @ [newline]) (dedup_lines (file_lines content)))"

section \<open>Notions used to state the properties\<close>

text \<open>A position counts for a positive run: its value is not missing and exceeds 0.\<close>

fun is_positive :: "pyfloat \<Rightarrow> bool" where
  "is_positive NaN = False"
| "is_positive (Fin v) = (0 < v)"

text \<open>
  The loop invariant of \<^verbatim>\<open>_get_longest_positive_run\<close> after the scores \<open>pre\<close>:
  \<open>current_run\<close> is the length of the positive run that ends at the last position, and
  \<open>max_run\<close> is the length of a positive run of \<open>pre\<close> that no other one exceeds.
\<close>

definition run_inv :: "pyfloat list \<Rightarrow> int \<Rightarrow> int \<Rightarrow> bool" where
  "run_inv pre current_run max_run \<longleftrightarrow>
     current_run = int (length (takeWhile is_positive (rev pre))) \<and>
     (\<exists>ys. sublist ys pre \<and> list_all is_positive ys \<and> int (length ys) = max_run) \<and>
     (\<forall>ys. sublist ys pre \<and> list_all is_positive ys \<longrightarrow> int (length ys) \<le> max_run)"

text \<open>
  The seven metric names of \<^verbatim>\<open>_analyze_score_array\<close>, and the keys an array contributes
  under a prefix.
\<close>

definition metric_names :: "string list" where
  "metric_names =
     [''_mean'', ''_median'', ''_max'', ''_q75'', ''_start'', ''_max_window'',
      ''_longest_positive_run'']"

definition array_keys :: "string \<Rightarrow> pyfloat list \<Rightarrow> string set" where
  "array_keys pfx xs = (if xs = [] then {} else (\<lambda>s. pfx @ s) ` set metric_names)"

text \<open>The loop over the frames in \<^verbatim>\<open>calculate_metrics\<close>.\<close>

abbreviation frame_fold ::
  "int \<Rightarrow> (int \<times> pyfloat list) list \<Rightarrow> metrics \<Rightarrow> metrics" where
  "frame_fold ws d acc \<equiv>
     fold (\<lambda>(frame, scores) metrics.
             dict_update metrics (analyze_score_array ws (Some scores) (frame_prefix frame)))
          d acc"

text \<open>
  Two tracks and a tracker for concrete lookups: the first track declares \<^verbatim>\<open>chr1\<close> with
  length 100; the second also declares \<^verbatim>\<open>chr2\<close> and agrees with the first on \<^verbatim>\<open>chr1\<close>.
  The tracker has the plus-strand frames 1 and 3 only.
\<close>

definition example_bw :: bigwig where
  "example_bw =
     \<lparr>chroms = Inr [''chr1'' \<mapsto> 100],
      chroms_of = (\<lambda>c. Inr (if c = ''chr1'' then Some 100 else None)),
      bw_values = (\<lambda>c s e. if s < e then Inr (replicate (nat (e - s)) (Fin 1))
                            else Inl (Exception ''Invalid interval bounds!''))\<rparr>"

definition example_bw2 :: bigwig where
  "example_bw2 =
     \<lparr>chroms = Inr [''chr1'' \<mapsto> 100, ''chr2'' \<mapsto> 50],
      chroms_of = (\<lambda>c. Inr (if c = ''chr1'' then Some 100 else if c = ''chr2'' then Some 50 else None)),
      bw_values = (\<lambda>c s e. if s < e then Inr (replicate (nat (e - s)) (if c = ''chr2'' then NaN else Fin 1))
                            else Inl (Exception ''Invalid interval bounds!''))\<rparr>"

definition example_tracker :: tracker where
  "example_tracker =
     \<lparr>phylocsf_type = ''Raw'',
      phylocsf_tracks = [''+1'' \<mapsto> example_bw, ''+3'' \<mapsto> example_bw],
      phylop_track = example_bw\<rparr>"

text \<open>A row for concrete frames: fixed BED columns, the given name and float score.\<close>

definition example_row :: "string \<Rightarrow> real \<Rightarrow> scored_row" where
  "example_row nm v =
     \<lparr>chrom = ''chr1'', chromStart = 0, chromEnd = 10, name = nm, score = 0, strand = ''+'',
      conservation_score = v\<rparr>"

text \<open>
  The name that the loop of \<^verbatim>\<open>make_names_unique\<close> reads from a line: \<^verbatim>\<open>fields[3]\<close> of
  \<^verbatim>\<open>line.strip().split('\t')\<close>, when there are at least four fields.
\<close>

definition parsed_name :: "string \<Rightarrow> string option" where
  "parsed_name line =
     (let fields = split_tab (strip line) in if length fields \<ge> 4 then Some (fields ! 3) else None)"

text \<open>
  The number of lines among \<open>ls\<close> from which the loop reads the name \<open>nm\<close>: the value of
  \<^verbatim>\<open>name_counts[nm]\<close> after them.
\<close>

definition occurrences :: "string \<Rightarrow> string list \<Rightarrow> nat" where
  "occurrences nm ls = length (filter (\<lambda>l. parsed_name l = Some nm) ls)"

text \<open>
  The rewritten name as the specification words it: unchanged for a first occurrence,
  \<^verbatim>\<open>_dup{k}\<close> appended for the duplicate that has \<open>k\<close> earlier occurrences.
\<close>

definition dedup_name :: "nat \<Rightarrow> string \<Rightarrow> string" where
  "dedup_name k nm = (if k = 0 then nm else nm @ ''_dup'' @ str_int (int k))"

text \<open>
  The output line for an input line that follows the lines \<open>prev\<close>, and the output for a
  list of lines read after \<open>prev\<close>.
\<close>

definition out_line :: "string list \<Rightarrow> string \<Rightarrow> string" where
  "out_line prev line =
     (let fields = split_tab (strip line)
      in if length fields \<ge> 4
         then join_tab (fields[3 := dedup_name (occurrences (fields ! 3) prev) (fields ! 3)])
         else join_tab fields)"

fun dedup_from :: "string list \<Rightarrow> string list \<Rightarrow> string list" where
  "dedup_from prev [] = []"
| "dedup_from prev (l # ls) = out_line prev l # dedup_from (prev @ [l]) ls"

text \<open>
  An input line without its line feed, and the lines that have no whitespace at either end
  apart from that line feed.
\<close>

definition chomp :: "string \<Rightarrow> string" where
  "chomp l = (if l \<noteq> [] \<and> last l = newline then butlast l else l)"

definition no_outer_space :: "string \<Rightarrow> bool" where
  "no_outer_space l \<longleftrightarrow>
     chomp l = [] \<or> (\<not> is_space (hd (chomp l)) \<and> \<not> is_space (last (chomp l)))"

text \<open>
  The name of a record as the specification words it: the fourth column of the input line,
  the line taken without its line feed; and the number of records among \<open>ls\<close> with the
  name \<open>nm\<close>.
\<close>

definition record_name :: "string \<Rightarrow> string option" where
  "record_name line =
     (let columns = split_tab (chomp line)
      in if length columns \<ge> 4 then Some (columns ! 3) else None)"

definition name_occurrences :: "string \<Rightarrow> string list \<Rightarrow> nat" where
  "name_occurrences nm ls = length (filter (\<lambda>l. record_name l = Some nm) ls)"

text \<open>A four-field record with the given name, as a line of the input file.\<close>

definition example_record :: "string \<Rightarrow> string" where
  "example_record nm = join_tab [''chr1'', ''10'', ''20'', nm] @ [newline]"

section \<open>The longest positive run\<close>

lemma loop_test_positive: "(\<not> isnan s \<and> py_gt s (Fin 0)) = is_positive s"
  by (cases s) simp_all

lemma positive_suffix_bound:
  assumes "suffix ys zs" and "list_all P ys"
  shows "length ys \<le> length (takeWhile P (rev zs))"
proof -
  from assms(1) obtain ps where zs: "zs = ps @ ys" by (auto simp: suffix_def)
  have "takeWhile P (rev ys @ rev ps) = rev ys @ takeWhile P (rev ps)"
    using assms(2) by (intro takeWhile_append2) (simp add: list_all_iff)
  then show ?thesis by (simp add: zs)
qed

lemma positive_suffix_sublist: "sublist (rev (takeWhile P (rev zs))) zs"
proof -
  have "prefix (takeWhile P (rev zs)) (rev zs)" by (rule takeWhile_is_prefix)
  then have "suffix (rev (takeWhile P (rev zs))) zs"
    by (metis suffix_to_prefix rev_rev_ident)
  then show ?thesis by (rule suffix_imp_sublist)
qed

lemma list_all_takeWhile_rev: "list_all P (rev (takeWhile P zs))"
  by (induction zs) simp_all

lemma run_inv_step_pos:
  assumes "run_inv pre cur mx" and "is_positive x"
  shows "run_inv (pre @ [x]) (cur + 1) (max mx (cur + 1))"
  unfolding run_inv_def
proof (intro conjI allI impI)
  from assms show c: "cur + 1 = int (length (takeWhile is_positive (rev (pre @ [x]))))"
    by (simp add: run_inv_def)
  show "\<exists>ys. sublist ys (pre @ [x]) \<and> list_all is_positive ys \<and> int (length ys) = max mx (cur + 1)"
  proof (cases "cur + 1 \<le> mx")
    case True
    from assms(1) obtain ys where ys: "sublist ys pre" "list_all is_positive ys" "int (length ys) = mx"
      by (auto simp: run_inv_def)
    from ys(1) have "sublist ys (pre @ [x])" by (simp add: sublist_snoc)
    moreover from True ys(3) have "int (length ys) = max mx (cur + 1)" by simp
    ultimately show ?thesis using ys(2) by blast
  next
    case False
    let ?ys = "rev (takeWhile is_positive (rev (pre @ [x])))"
    have "sublist ?ys (pre @ [x])" by (rule positive_suffix_sublist)
    moreover have "list_all is_positive ?ys"
      by (rule list_all_takeWhile_rev)
    moreover have "int (length ?ys) = max mx (cur + 1)" using c False by simp
    ultimately show ?thesis by blast
  qed
next
  fix ys assume ys: "sublist ys (pre @ [x]) \<and> list_all is_positive ys"
  then consider "sublist ys pre" | "suffix ys (pre @ [x])" by (auto simp: sublist_snoc)
  then show "int (length ys) \<le> max mx (cur + 1)"
  proof cases
    case 1
    with ys assms(1) have "int (length ys) \<le> mx" by (auto simp: run_inv_def)
    then show ?thesis by simp
  next
    case 2
    from positive_suffix_bound[OF 2, of is_positive] ys
    have "length ys \<le> length (takeWhile is_positive (rev (pre @ [x])))" by simp
    moreover from assms have "cur + 1 = int (length (takeWhile is_positive (rev (pre @ [x]))))"
      by (simp add: run_inv_def)
    ultimately show ?thesis by simp
  qed
qed

lemma run_inv_step_neg:
  assumes "run_inv pre cur mx" and "\<not> is_positive x"
  shows "run_inv (pre @ [x]) 0 mx"
  unfolding run_inv_def
proof (intro conjI allI impI)
  from assms(2) show "0 = int (length (takeWhile is_positive (rev (pre @ [x]))))" by simp
  from assms(1) obtain ys where ys: "sublist ys pre" "list_all is_positive ys" "int (length ys) = mx"
    by (auto simp: run_inv_def)
  from ys(1) have "sublist ys (pre @ [x])" by (simp add: sublist_snoc)
  with ys show "\<exists>ys. sublist ys (pre @ [x]) \<and> list_all is_positive ys \<and> int (length ys) = mx"
    by blast
next
  fix ys assume ys: "sublist ys (pre @ [x]) \<and> list_all is_positive ys"
  then consider "sublist ys pre" | "suffix ys (pre @ [x])" by (auto simp: sublist_snoc)
  then show "int (length ys) \<le> mx"
  proof cases
    case 1
    with ys assms(1) show ?thesis by (auto simp: run_inv_def)
  next
    case 2
    from positive_suffix_bound[OF 2, of is_positive] ys assms(2)
    have "length ys = 0" by simp
    moreover from assms(1) have "0 \<le> mx" by (auto simp: run_inv_def)
    ultimately show ?thesis by simp
  qed
qed

lemma positive_run_loop_inv:
  "run_inv pre cur mx \<Longrightarrow> \<exists>cur'. run_inv (pre @ xs) cur' (positive_run_loop xs cur mx)"
proof (induction xs arbitrary: pre cur mx)
  case Nil
  then show ?case by auto
next
  case (Cons x xs)
  show ?case
  proof (cases "is_positive x")
    case True
    from Cons.IH[OF run_inv_step_pos[OF Cons.prems True]] True
    show ?thesis by (simp add: loop_test_positive)
  next
    case False
    from Cons.IH[OF run_inv_step_neg[OF Cons.prems False]] False
    show ?thesis by (simp add: loop_test_positive)
  qed
qed

lemma run_inv_init: "run_inv [] 0 0"
  by (simp add: run_inv_def)

lemma longest_run_attained:
  "\<exists>ys. sublist ys scores \<and> list_all is_positive ys \<and>
        int (length ys) = get_longest_positive_run scores"
  using positive_run_loop_inv[OF run_inv_init, of scores]
  by (auto simp: run_inv_def get_longest_positive_run_def)

lemma longest_run_bound:
  "sublist ys scores \<Longrightarrow> list_all is_positive ys \<Longrightarrow>
   int (length ys) \<le> get_longest_positive_run scores"
  using positive_run_loop_inv[OF run_inv_init, of scores]
  by (auto simp: run_inv_def get_longest_positive_run_def)

lemma run_loop_no_positive:
  "\<forall>s \<in> set scores. \<not> is_positive s \<Longrightarrow> positive_run_loop scores c m = m"
  by (induction scores arbitrary: c) (simp_all add: loop_test_positive)

text \<open>
  C3. \<^verbatim>\<open>longest_positive_run\<close> is the length of a contiguous stretch of non-missing values
  above 0, and no such stretch of the array is longer; it is 0 when no position is
  positive, 3 on \<^verbatim>\<open>[1,2,-1,3,4,5,-1]\<close> and 0 on an array of missing values.
\<close>

theorem longest_positive_run_correct:
  "(\<exists>ys. sublist ys scores \<and> list_all is_positive ys \<and>
         int (length ys) = get_longest_positive_run scores) \<and>
   (\<forall>ys. sublist ys scores \<and> list_all is_positive ys \<longrightarrow>
         int (length ys) \<le> get_longest_positive_run scores) \<and>
   ((\<forall>s \<in> set scores. \<not> is_positive s) \<longrightarrow> get_longest_positive_run scores = 0) \<and>
   get_longest_positive_run [Fin 1, Fin 2, Fin (- 1), Fin 3, Fin 4, Fin 5, Fin (- 1)] = 3 \<and>
   get_longest_positive_run (replicate n NaN) = 0"
proof (intro conjI allI impI)
  show "\<exists>ys. sublist ys scores \<and> list_all is_positive ys \<and>
         int (length ys) = get_longest_positive_run scores"
    by (rule longest_run_attained)
  show "int (length ys) \<le> get_longest_positive_run scores"
    if "sublist ys scores \<and> list_all is_positive ys" for ys
    using that longest_run_bound by blast
  show "get_longest_positive_run scores = 0" if "\<forall>s \<in> set scores. \<not> is_positive s"
    using that by (simp add: get_longest_positive_run_def run_loop_no_positive)
  show "get_longest_positive_run [Fin 1, Fin 2, Fin (- 1), Fin 3, Fin 4, Fin 5, Fin (- 1)] = 3"
    by (simp add: get_longest_positive_run_def)
  show "get_longest_positive_run (replicate n NaN) = 0"
    by (simp add: get_longest_positive_run_def run_loop_no_positive)
qed

theorem longest_positive_run_correct_witness:
  "sublist [Fin 3, Fin 4, Fin 5] [Fin 1, Fin 2, Fin (- 1), Fin 3, Fin 4, Fin 5, Fin (- 1)] \<and>
   list_all is_positive [Fin 3, Fin 4, Fin 5] \<and>
   int (length [Fin 3 :: pyfloat, Fin 4, Fin 5]) \<le>
     get_longest_positive_run [Fin 1, Fin 2, Fin (- 1), Fin 3, Fin 4, Fin 5, Fin (- 1)] \<and>
   \<not> is_positive (Fin (- 1)) \<and> \<not> is_positive NaN \<and>
   get_longest_positive_run [Fin (- 1), NaN] = 0"
proof -
  let ?S = "[Fin 1, Fin 2, Fin (- 1), Fin 3, Fin 4, Fin 5, Fin (- 1)]"
  have h: "sublist [Fin 3, Fin 4, Fin 5] ?S \<and> list_all is_positive [Fin 3, Fin 4, Fin 5]"
    by (simp add: sublist_code)
  have n: "\<forall>s \<in> set [Fin (- 1), NaN]. \<not> is_positive s" by simp
  from longest_positive_run_correct[of ?S 0] h
  have "int (length [Fin 3 :: pyfloat, Fin 4, Fin 5]) \<le> get_longest_positive_run ?S"
    by blast
  moreover from longest_positive_run_correct[of "[Fin (- 1), NaN]" 0] n
  have "get_longest_positive_run [Fin (- 1), NaN] = 0" by blast
  ultimately show ?thesis using h by simp
qed

section \<open>Decimal rendering of integers\<close>

declare str_nat.simps [simp del]

lemma of_char_zero: "of_char (CHR ''0'') = (48::nat)" by simp

lemma of_char_digit_char: "d < 10 \<Longrightarrow> of_char (digit_char d) = (48 + d :: nat)"
proof -
  assume d: "d < 10"
  have "of_char (digit_char d) = ((48 + d) mod 256 :: nat)"
    unfolding digit_char_def of_char_zero by (rule of_char_of)
  also from d have "(48 + d) mod 256 = 48 + d" by (intro mod_less) arith
  finally show ?thesis .
qed

lemma digit_char_inj: "d < 10 \<Longrightarrow> e < 10 \<Longrightarrow> digit_char d = digit_char e \<Longrightarrow> d = e"
proof -
  assume "d < 10" "e < 10" "digit_char d = digit_char e"
  then have "(48 + d :: nat) = 48 + e"
    using of_char_digit_char[of d] of_char_digit_char[of e] by metis
  then show ?thesis by arith
qed

lemma digit_char_not_underscore: "d < 10 \<Longrightarrow> digit_char d \<noteq> CHR ''_''"
proof
  assume d: "d < 10" and "digit_char d = CHR ''_''"
  then have "of_char (CHR ''_'') = (48 + d :: nat)" using of_char_digit_char[of d] by metis
  moreover have "of_char (CHR ''_'') = (95::nat)" by simp
  ultimately show False using d by arith
qed

lemma digit_char_not_minus: "d < 10 \<Longrightarrow> digit_char d \<noteq> CHR ''-''"
proof
  assume d: "d < 10" and "digit_char d = CHR ''-''"
  then have "of_char (CHR ''-'') = (48 + d :: nat)" using of_char_digit_char[of d] by metis
  moreover have "of_char (CHR ''-'') = (45::nat)" by simp
  ultimately show False using d by arith
qed

lemma str_nat_digits: "c \<in> set (str_nat n) \<Longrightarrow> \<exists>d < 10. c = digit_char d"
proof (induction n rule: str_nat.induct)
  case (1 n)
  show ?case
  proof (cases "n < 10")
    case True
    with "1.prems" show ?thesis by (auto simp: str_nat.simps[of n])
  next
    case False
    with "1.prems" have "c \<in> set (str_nat (n div 10)) \<or> c = digit_char (n mod 10)"
      by (auto simp: str_nat.simps[of n])
    then show ?thesis
    proof
      assume "c \<in> set (str_nat (n div 10))"
      with "1.IH" False show ?thesis by simp
    next
      assume "c = digit_char (n mod 10)"
      moreover have "n mod 10 < 10" by simp
      ultimately show ?thesis by blast
    qed
  qed
qed

lemma str_nat_nonempty: "str_nat n \<noteq> []"
  by (subst str_nat.simps) simp

lemma str_nat_inj: "str_nat n = str_nat m \<Longrightarrow> n = m"
proof (induction n arbitrary: m rule: str_nat.induct)
  case (1 n)
  show ?case
  proof (cases "n < 10")
    case n: True
    show ?thesis
    proof (cases "m < 10")
      case True
      with n "1.prems" show ?thesis
        by (auto simp: str_nat.simps[of n] str_nat.simps[of m] dest: digit_char_inj)
    next
      case False
      with n "1.prems" have "[digit_char n] = str_nat (m div 10) @ [digit_char (m mod 10)]"
        by (simp add: str_nat.simps[of n] str_nat.simps[of m])
      then show ?thesis using str_nat_nonempty[of "m div 10"] by simp
    qed
  next
    case n: False
    show ?thesis
    proof (cases "m < 10")
      case True
      with n "1.prems" have "str_nat (n div 10) @ [digit_char (n mod 10)] = [digit_char m]"
        by (simp add: str_nat.simps[of n] str_nat.simps[of m])
      then show ?thesis using str_nat_nonempty[of "n div 10"] by simp
    next
      case False
      with n "1.prems" have eq: "str_nat (n div 10) = str_nat (m div 10)"
        and d: "digit_char (n mod 10) = digit_char (m mod 10)"
        by (simp_all add: str_nat.simps[of n] str_nat.simps[of m])
      from "1.IH"[OF n eq] have "n div 10 = m div 10" .
      moreover from d have "n mod 10 = m mod 10" by (intro digit_char_inj) simp_all
      ultimately show ?thesis by (metis div_mult_mod_eq)
    qed
  qed
qed

lemma str_int_no_underscore: "CHR ''_'' \<notin> set (str_int i)"
  by (auto simp: str_int_def dest!: str_nat_digits dest: digit_char_not_underscore)

lemma str_nat_hd_not_minus: "str_nat n \<noteq> CHR ''-'' # s"
proof
  assume "str_nat n = CHR ''-'' # s"
  then have "CHR ''-'' \<in> set (str_nat n)" by simp
  then obtain d where "d < 10" "CHR ''-'' = digit_char d" using str_nat_digits by blast
  then show False using digit_char_not_minus[of d] by simp
qed

lemma str_int_inj: "str_int i = str_int j \<Longrightarrow> i = j"
proof -
  assume eq: "str_int i = str_int j"
  consider "i < 0" "j < 0" | "i < 0" "\<not> j < 0" | "\<not> i < 0" "j < 0" | "\<not> i < 0" "\<not> j < 0" by blast
  then show ?thesis
  proof cases
    case 1
    with eq have "nat (- i) = nat (- j)" by (auto simp: str_int_def dest: str_nat_inj)
    with 1 show ?thesis by simp
  next
    case 2
    with eq show ?thesis using str_nat_hd_not_minus[of "nat j" "str_nat (nat (- i))"] by (simp add: str_int_def)
  next
    case 3
    with eq show ?thesis using str_nat_hd_not_minus[of "nat i" "str_nat (nat (- j))"] by (simp add: str_int_def)
  next
    case 4
    with eq have "nat i = nat j" by (auto simp: str_int_def dest: str_nat_inj)
    with 4 show ?thesis by simp
  qed
qed

lemma sep_split:
  "c \<notin> set s \<Longrightarrow> c \<notin> set t \<Longrightarrow> prefix (s @ [c]) (t @ c # r) \<Longrightarrow> s = t"
proof (induction s arbitrary: t)
  case Nil
  then show ?case by (cases t) auto
next
  case (Cons a s)
  then show ?case by (cases t) auto
qed

lemma str_int_1: "str_int 1 = ''1''" "str_int 2 = ''2''" "str_int 3 = ''3''"
  by code_simp+

section \<open>The keys of a metric mapping\<close>

lemma analyze_keys:
  "map fst (analyze_score_array ws (Some xs) pfx) =
     (if xs = [] then [] else map (\<lambda>s. pfx @ s) metric_names)"
  by (simp add: analyze_score_array_def metric_names_def)

lemma analyze_key_set:
  "fst ` set (analyze_score_array ws (Some xs) pfx) = array_keys pfx xs"
proof -
  have "fst ` set (analyze_score_array ws (Some xs) pfx) =
        set (map fst (analyze_score_array ws (Some xs) pfx))" by simp
  also have "\<dots> = array_keys pfx xs"
    unfolding analyze_keys by (simp add: array_keys_def)
  finally show ?thesis .
qed

lemma dict_update_keys: "fst ` set (dict_update d other) = fst ` set d \<union> fst ` set other"
  unfolding dict_update_def
proof (induction other arbitrary: d)
  case Nil
  then show ?case by simp
next
  case (Cons kv other)
  obtain k v where kv: "kv = (k, v)" by (cases kv)
  show ?case by (simp add: kv Cons.IH dom_update)
qed

lemma dict_update_distinct:
  "distinct (map fst d) \<Longrightarrow> distinct (map fst (dict_update d other))"
  unfolding dict_update_def
proof (induction other arbitrary: d)
  case Nil
  then show ?case by simp
next
  case (Cons kv other)
  obtain k v where kv: "kv = (k, v)" by (cases kv)
  from Cons.prems have "distinct (map fst (AList.update k v d))" by (rule distinct_update)
  from Cons.IH[OF this] show ?case by (simp add: kv)
qed

lemma frame_fold_keys:
  "fst ` set (frame_fold ws d acc) =
     fst ` set acc \<union> (\<Union>(f, xs) \<in> set d. array_keys (frame_prefix f) xs)"
proof (induction d arbitrary: acc)
  case Nil
  then show ?case by simp
next
  case (Cons fx d)
  obtain f xs where fx: "fx = (f, xs)" by (cases fx)
  show ?case
    by (simp add: fx Cons.IH dict_update_keys analyze_key_set Un_assoc)
qed

lemma frame_fold_distinct:
  "distinct (map fst acc) \<Longrightarrow> distinct (map fst (frame_fold ws d acc))"
proof (induction d arbitrary: acc)
  case Nil
  then show ?case by simp
next
  case (Cons fx d)
  obtain f xs where fx: "fx = (f, xs)" by (cases fx)
  from Cons.prems
  have "distinct (map fst (dict_update acc (analyze_score_array ws (Some xs) (frame_prefix f))))"
    by (rule dict_update_distinct)
  from Cons.IH[OF this] show ?case by (simp add: fx)
qed

lemma calculate_metrics_keys:
  "fst ` set (calculate_metrics ws d p) =
     (\<Union>(f, xs) \<in> set d. array_keys (frame_prefix f) xs) \<union>
     (case p of None \<Rightarrow> {} | Some xs \<Rightarrow> array_keys ''phylop'' xs)"
  by (cases p)
     (simp_all add: calculate_metrics_def frame_fold_keys dict_update_keys analyze_key_set)

lemma calculate_metrics_distinct: "distinct (map fst (calculate_metrics ws d p))"
proof -
  have "distinct (map fst (frame_fold ws d []))" by (rule frame_fold_distinct) simp
  then show ?thesis
    by (cases p) (simp_all add: calculate_metrics_def dict_update_distinct)
qed


lemma metric_name_shape: "s \<in> set metric_names \<Longrightarrow> \<exists>r. s = CHR ''_'' # r"
  by (auto simp: metric_names_def)

lemma frame_key_prefix:
  assumes "prefix (frame_prefix f @ ''_'') (frame_prefix g @ s)" and "s \<in> set metric_names"
  shows "f = g"
proof -
  from assms(2) obtain r where s: "s = CHR ''_'' # r" using metric_name_shape by blast
  from assms(1) have "prefix (str_int f @ [CHR ''_'']) (str_int g @ CHR ''_'' # r)"
    by (simp add: frame_prefix_def s)
  then have "str_int f = str_int g"
    by (rule sep_split[OF str_int_no_underscore str_int_no_underscore])
  then show ?thesis by (rule str_int_inj)
qed

lemma frame_key_eq:
  assumes "frame_prefix f @ s = frame_prefix g @ t"
    and "s \<in> set metric_names" and "t \<in> set metric_names"
  shows "f = g"
proof -
  from assms(2) obtain r where s: "s = CHR ''_'' # r" using metric_name_shape by blast
  have "prefix (frame_prefix f @ ''_'') (frame_prefix f @ s)" by (simp add: s)
  with assms(1) have "prefix (frame_prefix f @ ''_'') (frame_prefix g @ t)" by simp
  then show ?thesis using assms(3) by (rule frame_key_prefix)
qed

lemma phylop_key_no_frame_prefix: "\<not> prefix (frame_prefix f @ ''_'') (''phylop'' @ s)"
  by (simp add: frame_prefix_def)

lemma frame_key_not_phylop: "\<not> prefix ''phylop'' (frame_prefix f @ s)"
  by (simp add: frame_prefix_def)

lemma array_keys_card: "xs \<noteq> [] \<Longrightarrow> card (array_keys pfx xs) = 7"
proof -
  assume "xs \<noteq> []"
  then have "card (array_keys pfx xs) = card ((\<lambda>s. pfx @ s) ` set metric_names)"
    by (simp add: array_keys_def)
  also have "\<dots> = card (set metric_names)" by (rule card_image) (simp add: inj_on_def)
  also have "\<dots> = length metric_names"
    by (rule distinct_card) (simp add: metric_names_def)
  also have "\<dots> = 7" by (simp add: metric_names_def)
  finally show ?thesis .
qed

lemma array_keys_finite: "finite (array_keys pfx xs)"
  by (simp add: array_keys_def)

lemma frame_keys_disjoint:
  "f \<noteq> g \<Longrightarrow> array_keys (frame_prefix f) xs \<inter> array_keys (frame_prefix g) ys = {}"
  by (auto simp: array_keys_def dest: frame_key_eq split: if_splits)

lemma phylop_keys_disjoint:
  "array_keys (frame_prefix f) xs \<inter> array_keys ''phylop'' ys = {}"
proof -
  have "False" if "frame_prefix f @ s = ''phylop'' @ t" for s t
  proof -
    have "prefix ''phylop'' (''phylop'' @ t)" by simp
    with that show False using frame_key_not_phylop[of f s] by simp
  qed
  then show ?thesis by (auto simp: array_keys_def split: if_splits)
qed

lemma absent_frame_no_keys:
  assumes "\<forall>xs. (f, xs) \<in> set d \<longrightarrow> xs = []"
    and "k \<in> fst ` set (calculate_metrics ws d p)"
  shows "\<not> prefix (frame_prefix f @ ''_'') k"
proof
  assume pre: "prefix (frame_prefix f @ ''_'') k"
  from assms(2) consider g xs where "(g, xs) \<in> set d" "k \<in> array_keys (frame_prefix g) xs"
    | xs where "p = Some xs" "k \<in> array_keys ''phylop'' xs"
    unfolding calculate_metrics_keys by (auto split: option.splits)
  then show False
  proof cases
    case 1
    then obtain s where "xs \<noteq> []" "s \<in> set metric_names" "k = frame_prefix g @ s"
      by (auto simp: array_keys_def split: if_splits)
    with pre have "f = g" using frame_key_prefix by blast
    with 1(1) \<open>xs \<noteq> []\<close> assms(1) show False by blast
  next
    case 2
    then obtain s where "k = ''phylop'' @ s" by (auto simp: array_keys_def split: if_splits)
    with pre show False using phylop_key_no_frame_prefix by blast
  qed
qed

lemma full_bundle_key_set:
  assumes "fst ` set d = {1, 2, 3}" and "\<forall>(f, xs) \<in> set d. xs \<noteq> []"
  shows "(\<Union>(f, xs) \<in> set d. array_keys (frame_prefix f) xs) =
         (\<lambda>s. frame_prefix 1 @ s) ` set metric_names \<union>
         (\<lambda>s. frame_prefix 2 @ s) ` set metric_names \<union>
         (\<lambda>s. frame_prefix 3 @ s) ` set metric_names"
proof -
  have "(\<Union>(f, xs) \<in> set d. array_keys (frame_prefix f) xs) =
        (\<Union>f \<in> fst ` set d. (\<lambda>s. frame_prefix f @ s) ` set metric_names)"
    using assms(2) by (force simp: array_keys_def)
  then show ?thesis by (simp add: assms(1) Un_assoc)
qed

lemma full_bundle_count:
  assumes "fst ` set d = {1, 2, 3}" and "\<forall>(f, xs) \<in> set d. xs \<noteq> []" and "b \<noteq> []"
  shows "length (calculate_metrics ws d (Some b)) = 28"
proof -
  let ?K = "\<lambda>f. array_keys (frame_prefix f) b"
  let ?P = "array_keys ''phylop'' b"
  have K: "?K f = (\<lambda>s. frame_prefix f @ s) ` set metric_names" for f
    using assms(3) by (simp add: array_keys_def)
  have keys: "fst ` set (calculate_metrics ws d (Some b)) = ?K 1 \<union> ?K 2 \<union> ?K 3 \<union> ?P"
    by (simp add: calculate_metrics_keys full_bundle_key_set[OF assms(1,2)] K)
  have c7: "card (?K f) = 7" "card ?P = 7" for f
    using assms(3) by (simp_all add: array_keys_card)
  have fin: "finite (?K f)" "finite ?P" for f by (simp_all add: array_keys_finite)
  have d12: "?K 1 \<inter> ?K 2 = {}" by (rule frame_keys_disjoint) simp
  have d123: "(?K 1 \<union> ?K 2) \<inter> ?K 3 = {}"
    using frame_keys_disjoint[of 1 3 b b] frame_keys_disjoint[of 2 3 b b] by auto
  have dP: "(?K 1 \<union> ?K 2 \<union> ?K 3) \<inter> ?P = {}"
    using phylop_keys_disjoint[of _ b b] by auto
  have "card (?K 1 \<union> ?K 2) = 14" using d12 by (simp add: card_Un_disjoint fin c7)
  then have "card (?K 1 \<union> ?K 2 \<union> ?K 3) = 21" using d123 by (simp add: card_Un_disjoint fin c7)
  then have "card (?K 1 \<union> ?K 2 \<union> ?K 3 \<union> ?P) = 28"
    using dP by (simp add: card_Un_disjoint fin c7)
  with keys have "card (fst ` set (calculate_metrics ws d (Some b))) = 28" by simp
  moreover have "card (set (map fst (calculate_metrics ws d (Some b)))) =
      length (map fst (calculate_metrics ws d (Some b)))"
    by (rule distinct_card) (rule calculate_metrics_distinct)
  ultimately show ?thesis by simp
qed

lemma full_bundle_keys:
  assumes "fst ` set d = {1, 2, 3}" and "\<forall>(f, xs) \<in> set d. xs \<noteq> []" and "b \<noteq> []"
  shows "fst ` set (calculate_metrics ws d (Some b)) =
         set (concat (map (\<lambda>p. map (\<lambda>s. p @ s)
                 [''_mean'', ''_median'', ''_max'', ''_q75'', ''_start'', ''_max_window'',
                  ''_longest_positive_run''])
               [''phylocsf_frame1'', ''phylocsf_frame2'', ''phylocsf_frame3'', ''phylop'']))"
proof -
  have p: "frame_prefix 1 = ''phylocsf_frame1''" "frame_prefix 2 = ''phylocsf_frame2''"
    "frame_prefix 3 = ''phylocsf_frame3''"
    by (simp_all add: frame_prefix_def str_int_1)
  have "fst ` set (calculate_metrics ws d (Some b)) =
        set (concat (map (\<lambda>p. map (\<lambda>s. p @ s) metric_names)
               [frame_prefix 1, frame_prefix 2, frame_prefix 3, ''phylop'']))"
    unfolding calculate_metrics_keys full_bundle_key_set[OF assms(1,2)]
    using assms(3) by (simp add: array_keys_def Un_assoc)
  then show ?thesis by (simp only: p metric_names_def)
qed

lemma base_absent_no_keys:
  assumes "p = None \<or> p = Some []" and "k \<in> fst ` set (calculate_metrics ws d p)"
  shows "\<not> prefix ''phylop'' k"
proof -
  from assms obtain g xs where "(g, xs) \<in> set d" "k \<in> array_keys (frame_prefix g) xs"
    unfolding calculate_metrics_keys by (auto simp: array_keys_def)
  then obtain s where "k = frame_prefix g @ s" by (auto simp: array_keys_def split: if_splits)
  then show ?thesis using frame_key_not_phylop by simp
qed

lemma frame1_mean_key:
  "''phylocsf_frame1_mean'' \<in> fst ` set (calculate_metrics ws ((1, [Fin 1]) # d) p)"
  unfolding calculate_metrics_keys
  by (simp add: array_keys_def frame_prefix_def str_int_1 metric_names_def)

text \<open>
  C1 (amended). A bundle with the three frames and the base-level array, all non-empty,
  gives 28 distinct keys: each of the prefixes \<^verbatim>\<open>phylocsf_frame1\<close>, \<^verbatim>\<open>phylocsf_frame2\<close>,
  \<^verbatim>\<open>phylocsf_frame3\<close> and \<^verbatim>\<open>phylop\<close> with each of the seven metric names \<^verbatim>\<open>_mean\<close>,
  \<^verbatim>\<open>_median\<close>, \<^verbatim>\<open>_max\<close>, \<^verbatim>\<open>_q75\<close>, \<^verbatim>\<open>_start\<close>, \<^verbatim>\<open>_max_window\<close> and
  \<^verbatim>\<open>_longest_positive_run\<close>. A frame that is not in the frame dict has no key under its
  prefix.
\<close>

theorem calculate_metrics_key_count:
  "(fst ` set d = {1, 2, 3} \<and> (\<forall>(f, xs) \<in> set d. xs \<noteq> []) \<and> b \<noteq> [] \<longrightarrow>
      length (calculate_metrics ws d (Some b)) = 28 \<and>
      distinct (map fst (calculate_metrics ws d (Some b))) \<and>
      fst ` set (calculate_metrics ws d (Some b)) =
        set (concat (map (\<lambda>p. map (\<lambda>s. p @ s)
                 [''_mean'', ''_median'', ''_max'', ''_q75'', ''_start'', ''_max_window'',
                  ''_longest_positive_run''])
               [''phylocsf_frame1'', ''phylocsf_frame2'', ''phylocsf_frame3'', ''phylop'']))) \<and>
   (f \<notin> fst ` set d' \<longrightarrow>
      (\<forall>k \<in> fst ` set (calculate_metrics ws d' p). \<not> prefix (frame_prefix f @ ''_'') k))"
proof (intro conjI impI ballI)
  assume a: "fst ` set d = {1, 2, 3} \<and> (\<forall>(f, xs) \<in> set d. xs \<noteq> []) \<and> b \<noteq> []"
  then show "length (calculate_metrics ws d (Some b)) = 28"
    using full_bundle_count[of d b ws] by blast
  show "distinct (map fst (calculate_metrics ws d (Some b)))"
    by (rule calculate_metrics_distinct)
  from a show "fst ` set (calculate_metrics ws d (Some b)) =
        set (concat (map (\<lambda>p. map (\<lambda>s. p @ s)
                 [''_mean'', ''_median'', ''_max'', ''_q75'', ''_start'', ''_max_window'',
                  ''_longest_positive_run''])
               [''phylocsf_frame1'', ''phylocsf_frame2'', ''phylocsf_frame3'', ''phylop'']))"
    by (intro full_bundle_keys) blast+
next
  fix k
  assume "f \<notin> fst ` set d'" and k: "k \<in> fst ` set (calculate_metrics ws d' p)"
  then have "\<forall>xs. (f, xs) \<in> set d' \<longrightarrow> xs = []" by force
  then show "\<not> prefix (frame_prefix f @ ''_'') k" using k by (rule absent_frame_no_keys)
qed

theorem calculate_metrics_key_count_witness:
  "length (calculate_metrics 30 [(1, [Fin 1]), (2, [Fin 2]), (3, [NaN])] (Some [Fin 4])) = 28 \<and>
   fst ` set (calculate_metrics 30 [(1, [Fin 1]), (2, [Fin 2]), (3, [NaN])] (Some [Fin 4])) =
     set (concat (map (\<lambda>p. map (\<lambda>s. p @ s)
                 [''_mean'', ''_median'', ''_max'', ''_q75'', ''_start'', ''_max_window'',
                  ''_longest_positive_run''])
               [''phylocsf_frame1'', ''phylocsf_frame2'', ''phylocsf_frame3'', ''phylop''])) \<and>
   ''phylocsf_frame1_mean'' \<in> fst ` set (calculate_metrics 30 [(1, [Fin 1])] None) \<and>
   \<not> prefix (frame_prefix 2 @ ''_'') ''phylocsf_frame1_mean''"
proof -
  let ?d = "[(1 :: int, [Fin 1]), (2, [Fin 2]), (3, [NaN])]"
  have h: "fst ` set ?d = {1, 2, 3} \<and> (\<forall>(f, xs) \<in> set ?d. xs \<noteq> []) \<and> [Fin 4] \<noteq> []"
    by auto
  have m: "''phylocsf_frame1_mean'' \<in> fst ` set (calculate_metrics 30 [(1, [Fin 1])] None)"
    by (rule frame1_mean_key)
  have n: "(2 :: int) \<notin> fst ` set [(1 :: int, [Fin 1])]" by simp
  from calculate_metrics_key_count[of ?d "[Fin 4]" 30 2 "[(1, [Fin 1])]" None] h m n
  show ?thesis by blast
qed

text \<open>A bundle with three one-element frames and a one-element base array: not 24 keys.\<close>

theorem full_bundle_not_24_keys:
  "length (calculate_metrics 30 [(1, [Fin 1]), (2, [Fin 2]), (3, [NaN])] (Some [Fin 4])) \<noteq> 24"
proof -
  have "length (calculate_metrics 30 [(1, [Fin 1]), (2, [Fin 2]), (3, [NaN])] (Some [Fin 4])) = 28"
    by (rule full_bundle_count) auto
  then show ?thesis by simp
qed

text \<open>
  C5. An empty or absent array yields no entry: \<^verbatim>\<open>_analyze_score_array\<close> returns the
  empty dict, a frame that is missing from the frame dict (or empty there) has no key
  under its prefix, and without a base-level array (or with an empty one) no key starts
  with \<^verbatim>\<open>phylop\<close>.
\<close>

theorem absent_or_empty_no_entries:
  "analyze_score_array ws None pfx = [] \<and>
   analyze_score_array ws (Some []) pfx = [] \<and>
   ((\<forall>xs. (f, xs) \<in> set d \<longrightarrow> xs = []) \<longrightarrow>
      (\<forall>k \<in> fst ` set (calculate_metrics ws d p). \<not> prefix (frame_prefix f @ ''_'') k)) \<and>
   (p = None \<or> p = Some [] \<longrightarrow>
      (\<forall>k \<in> fst ` set (calculate_metrics ws d p). \<not> prefix ''phylop'' k))"
proof (intro conjI impI ballI)
  show "analyze_score_array ws None pfx = []" by (simp add: analyze_score_array_def)
  show "analyze_score_array ws (Some []) pfx = []" by (simp add: analyze_score_array_def)
next
  fix k
  assume "\<forall>xs. (f, xs) \<in> set d \<longrightarrow> xs = []" and "k \<in> fst ` set (calculate_metrics ws d p)"
  then show "\<not> prefix (frame_prefix f @ ''_'') k" by (rule absent_frame_no_keys)
next
  fix k
  assume "p = None \<or> p = Some []" and "k \<in> fst ` set (calculate_metrics ws d p)"
  then show "\<not> prefix ''phylop'' k" by (rule base_absent_no_keys)
qed

theorem absent_or_empty_no_entries_witness:
  "''phylocsf_frame1_mean'' \<in> fst ` set (calculate_metrics 30 [(1, [Fin 1]), (2, [])] (Some [])) \<and>
   \<not> prefix (frame_prefix 2 @ ''_'') ''phylocsf_frame1_mean'' \<and>
   \<not> prefix ''phylop'' ''phylocsf_frame1_mean'' \<and>
   length (calculate_metrics 30 [(1, [Fin 1]), (2, [])] (Some [])) = 7"
proof -
  let ?d = "[(1 :: int, [Fin 1]), (2, [])]"
  have e: "\<forall>xs. (2, xs) \<in> set ?d \<longrightarrow> xs = []" by simp
  have m: "''phylocsf_frame1_mean'' \<in> fst ` set (calculate_metrics 30 ?d (Some []))"
    by (rule frame1_mean_key)
  have l: "length (calculate_metrics 30 ?d (Some [])) = 7"
    by (simp add: calculate_metrics_def analyze_score_array_def dict_update_def)
  from absent_or_empty_no_entries[of 30 "[]" 2 ?d "Some []"] e m l
  show ?thesis by blast
qed

section \<open>The maximum over the sliding windows\<close>

lemma max_window_short:
  "int (length scores) < window_size \<Longrightarrow> max_window window_size scores = nanmean scores"
  by (simp add: max_window_def get_window_scores_def)

lemma py_slice_window:
  assumes "0 < w" and "i + nat w \<le> length xs"
  shows "py_slice xs (int i) (int i + w) = take (nat w) (drop i xs)"
proof -
  from assms have "slice_bound (int (length xs)) (int i) = i"
    by (simp add: slice_bound_def)
  moreover from assms have "slice_bound (int (length xs)) (int i + w) = i + nat w"
    by (simp add: slice_bound_def)
  ultimately show ?thesis by (simp add: py_slice_def)
qed

lemma get_window_scores_full:
  assumes "0 < w" and "w \<le> int (length xs)"
  shows "get_window_scores w xs =
         map (\<lambda>i. nanmean (take (nat w) (drop i xs))) [0..<length xs - nat w + 1]"
proof -
  have n: "nat (int (length xs) - w + 1) = length xs - nat w + 1" using assms by linarith
  have "map (\<lambda>i. nanmean (py_slice xs i (i + w))) (py_range (int (length xs) - w + 1)) =
        map (\<lambda>i. nanmean (py_slice xs (int i) (int i + w))) [0..<length xs - nat w + 1]"
    by (simp add: py_range_def n comp_def)
  also have "\<dots> = map (\<lambda>i. nanmean (take (nat w) (drop i xs))) [0..<length xs - nat w + 1]"
  proof (rule map_cong[OF refl])
    fix i assume "i \<in> set [0..<length xs - nat w + 1]"
    then have "i + nat w \<le> length xs" using assms by simp linarith
    then show "nanmean (py_slice xs (int i) (int i + w)) = nanmean (take (nat w) (drop i xs))"
      using assms(1) by (simp add: py_slice_window)
  qed
  finally show ?thesis using assms by (simp add: get_window_scores_def)
qed

lemma py_max_from_NaN: "py_max_from NaN xs = NaN"
  by (induction xs) simp_all

lemma py_max_from_fold: "py_max_from (Fin b) xs = Fin (fold max (non_nan xs) b)"
proof (induction xs arbitrary: b)
  case Nil
  then show ?case by simp
next
  case (Cons x xs)
  show ?case
  proof (cases x)
    case NaN
    then show ?thesis by (simp add: Cons.IH)
  next
    case (Fin v)
    have "(if b < v then v else b) = max v b" by (simp add: max_def)
    with Fin show ?thesis by (simp add: Cons.IH)
  qed
qed

lemma py_max_from_Fin: "py_max_from (Fin b) xs = Fin (Max (insert b (set (non_nan xs))))"
proof -
  have "Max (set (b # non_nan xs)) = fold max (non_nan xs) b" by (rule Max.set_eq_fold)
  then show ?thesis by (simp add: py_max_from_fold)
qed

lemma non_nan_set: "v \<in> set (non_nan xs) \<longleftrightarrow> Fin v \<in> set xs"
  by (induction xs rule: non_nan.induct) auto

lemma max_window_first_defined:
  assumes "get_window_scores w xs = Fin b # ws"
  shows "max_window w xs = Fin (Max {v. Fin v \<in> set (get_window_scores w xs)})"
proof -
  have "{v. Fin v \<in> set (Fin b # ws)} = insert b (set (non_nan ws))"
    by (auto simp: non_nan_set)
  then show ?thesis by (simp add: max_window_def assms py_max_from_Fin)
qed

lemma max_window_first_missing:
  "get_window_scores w xs = NaN # ws \<Longrightarrow> max_window w xs = NaN"
  by (simp add: max_window_def py_max_from_NaN)

text \<open>
  C2. With \<^verbatim>\<open>window_size = 2\<close> the arrays \<^verbatim>\<open>[nan, nan, 1.0]\<close> and \<^verbatim>\<open>[1.0, nan, nan]\<close> have the
  same two window means, NaN and 1.0, in opposite order. \<^verbatim>\<open>max_window\<close> is NaN for the
  first and 1.0 for the second: the builtin \<^verbatim>\<open>max\<close> keeps a NaN that comes first and skips
  one that comes later, so the result is not a maximum of the window means.
\<close>

theorem max_window_depends_on_window_order:
  "get_window_scores 2 [NaN, NaN, Fin 1] = [NaN, Fin 1] \<and>
   max_window 2 [NaN, NaN, Fin 1] = NaN \<and>
   get_window_scores 2 [Fin 1, NaN, NaN] = [Fin 1, NaN] \<and>
   max_window 2 [Fin 1, NaN, NaN] = Fin 1"
proof -
  have a: "get_window_scores 2 [NaN, NaN, Fin 1] = [NaN, Fin 1]"
    by (simp add: get_window_scores_full nanmean_def upt_rec)
  have b: "get_window_scores 2 [Fin 1, NaN, NaN] = [Fin 1, NaN]"
    by (simp add: get_window_scores_full nanmean_def upt_rec)
  show ?thesis by (simp add: a b max_window_def)
qed

section \<open>The score fetcher\<close>

lemma get_scores_Some_iff:
  "snd (get_scores bw chr start end) = Some arr \<longleftrightarrow>
     (\<exists>cat len. chroms bw = Inr cat \<and> cat (normalize_chrom chr) \<noteq> None \<and>
        chroms_of bw (normalize_chrom chr) = Inr (Some len) \<and> 0 \<le> start \<and> end \<le> len \<and>
        bw_values bw (normalize_chrom chr) start end = Inr arr)"
  by (auto simp: get_scores_def get_scores_try_def Let_def
           split: sum.splits option.splits exn.splits if_splits)

lemma get_scores_raises: "get_scores_try bw (normalize_chrom chr) start end = Inl e \<Longrightarrow>
   snd (get_scores bw chr start end) = None"
  by (cases e) (simp add: get_scores_def Let_def)

lemma get_scores_unavailable:
  assumes "(\<exists>e. chroms bw = Inl e) \<or>
     (\<exists>cat. chroms bw = Inr cat \<and> cat (normalize_chrom chr) = None) \<or>
     start < 0 \<or>
     (\<exists>len. chroms_of bw (normalize_chrom chr) = Inr (Some len) \<and> len < end) \<or>
     (\<exists>e. chroms_of bw (normalize_chrom chr) = Inl e) \<or>
     chroms_of bw (normalize_chrom chr) = Inr None \<or>
     (\<exists>e. bw_values bw (normalize_chrom chr) start end = Inl e) \<or>
     (\<exists>e. get_scores_try bw (normalize_chrom chr) start end = Inl e)"
  shows "snd (get_scores bw chr start end) = None"
proof (cases "snd (get_scores bw chr start end)")
  case None
  then show ?thesis .
next
  case (Some arr)
  then obtain cat len where ok: "chroms bw = Inr cat" "cat (normalize_chrom chr) \<noteq> None"
      "chroms_of bw (normalize_chrom chr) = Inr (Some len)" "0 \<le> start" "end \<le> len"
      "bw_values bw (normalize_chrom chr) start end = Inr arr"
    unfolding get_scores_Some_iff by blast
  then have "get_scores_try bw (normalize_chrom chr) start end = Inr (Some arr)"
    by (auto simp: get_scores_try_def)
  with ok assms show ?thesis by auto
qed

lemma frame_step_keys:
  "fst ` set (snd (frame_step t chr start end sd frame st)) =
     fst ` set (snd st) \<union>
     (case phylocsf_tracks t (sd @ str_int frame) of
        None \<Rightarrow> {}
      | Some bw \<Rightarrow> (case snd (get_scores bw chr start end) of None \<Rightarrow> {} | Some _ \<Rightarrow> {frame}))"
  by (auto simp: frame_step_def Let_def dom_update split: option.splits)

lemma frame_step_lookup:
  "map_of (snd (frame_step t chr start end sd frame st)) =
     (case phylocsf_tracks t (sd @ str_int frame) of
        None \<Rightarrow> map_of (snd st)
      | Some bw \<Rightarrow>
          (case snd (get_scores bw chr start end) of
             None \<Rightarrow> map_of (snd st)
           | Some scores \<Rightarrow> (map_of (snd st))(frame \<mapsto> scores)))"
  by (simp add: frame_step_def Let_def update_conv' split: option.splits)

lemma bundle_frame_lookup:
  assumes "frame \<in> {1, 2, 3}"
  shows "map_of (fst (snd (get_conservation_scores t chr start end sd))) frame =
     (case phylocsf_tracks t (sd @ str_int frame) of
        None \<Rightarrow> None
      | Some bw \<Rightarrow> snd (get_scores bw chr start end))"
  using assms
  by (auto simp: get_conservation_scores_def Let_def frame_step_lookup split: option.splits)

lemma bundle_frame_keys:
  "fst ` set (fst (snd (get_conservation_scores t chr start end sd))) \<subseteq> {1, 2, 3}"
  by (auto simp: get_conservation_scores_def Let_def frame_step_keys split: option.splits)

lemma bundle_base:
  "snd (snd (get_conservation_scores t chr start end sd)) =
     snd (get_scores (phylop_track t) chr start end)"
  by (simp add: get_conservation_scores_def Let_def)


text \<open>
  C4. A lookup whose chromosome is not in the catalog, whose start is negative, whose end
  lies beyond the declared length, or in which a query of the track raises, returns
  \<^verbatim>\<open>None\<close>; the frame is then not a key of the frame dict and the base-level array is
  \<^verbatim>\<open>None\<close>. The functions are total: the handler turns every exception of the \<^verbatim>\<open>try\<close>
  block into \<^verbatim>\<open>None\<close>.
\<close>

theorem unavailable_lookup_omitted:
  assumes "(\<exists>e. chroms bw = Inl e) \<or>
     (\<exists>cat. chroms bw = Inr cat \<and> cat (normalize_chrom chr) = None) \<or>
     start < 0 \<or>
     (\<exists>len. chroms_of bw (normalize_chrom chr) = Inr (Some len) \<and> len < end) \<or>
     (\<exists>e. chroms_of bw (normalize_chrom chr) = Inl e) \<or>
     chroms_of bw (normalize_chrom chr) = Inr None \<or>
     (\<exists>e. bw_values bw (normalize_chrom chr) start end = Inl e) \<or>
     (\<exists>e. get_scores_try bw (normalize_chrom chr) start end = Inl e)"
  shows "snd (get_scores bw chr start end) = None \<and>
     (\<forall>frame \<in> {1, 2, 3}. phylocsf_tracks t (sd @ str_int frame) = Some bw \<longrightarrow>
        frame \<notin> fst ` set (fst (snd (get_conservation_scores t chr start end sd)))) \<and>
     (phylop_track t = bw \<longrightarrow> snd (snd (get_conservation_scores t chr start end sd)) = None)"
proof (intro conjI ballI impI)
  show none: "snd (get_scores bw chr start end) = None"
    using assms by (rule get_scores_unavailable)
  show "frame \<notin> fst ` set (fst (snd (get_conservation_scores t chr start end sd)))"
    if "frame \<in> {1, 2, 3}" and "phylocsf_tracks t (sd @ str_int frame) = Some bw" for frame
  proof -
    from that none
    have "map_of (fst (snd (get_conservation_scores t chr start end sd))) frame = None"
      by (simp add: bundle_frame_lookup[OF that(1)])
    then show ?thesis by (simp add: map_of_eq_None_iff)
  qed
  show "snd (snd (get_conservation_scores t chr start end sd)) = None" if "phylop_track t = bw"
    using that none by (simp add: bundle_base)
qed

theorem unavailable_lookup_omitted_witness:
  "chroms example_bw = Inr [''chr1'' \<mapsto> 100] \<and>
   [''chr1'' \<mapsto> (100 :: int)] (normalize_chrom ''2'') = None \<and>
   snd (get_scores example_bw ''2'' 0 10) = None \<and>
   phylocsf_tracks example_tracker (''+'' @ str_int 1) = Some example_bw \<and>
   1 \<notin> fst ` set (fst (snd (get_conservation_scores example_tracker ''2'' 0 10 ''+''))) \<and>
   snd (snd (get_conservation_scores example_tracker ''2'' 0 10 ''+'')) = None"
proof -
  have c: "chroms example_bw = Inr [''chr1'' \<mapsto> 100]" by (simp add: example_bw_def)
  have n: "[''chr1'' \<mapsto> (100 :: int)] (normalize_chrom ''2'') = None"
    by (simp add: normalize_chrom_def)
  have k: "phylocsf_tracks example_tracker (''+'' @ str_int 1) = Some example_bw"
    by (simp add: example_tracker_def str_int_1)
  have p: "phylop_track example_tracker = example_bw" by (simp add: example_tracker_def)
  have h: "(\<exists>e. chroms example_bw = Inl e) \<or>
     (\<exists>cat. chroms example_bw = Inr cat \<and> cat (normalize_chrom ''2'') = None) \<or>
     (0 :: int) < 0 \<or>
     (\<exists>len. chroms_of example_bw (normalize_chrom ''2'') = Inr (Some len) \<and> len < 10) \<or>
     (\<exists>e. chroms_of example_bw (normalize_chrom ''2'') = Inl e) \<or>
     chroms_of example_bw (normalize_chrom ''2'') = Inr None \<or>
     (\<exists>e. bw_values example_bw (normalize_chrom ''2'') 0 10 = Inl e) \<or>
     (\<exists>e. get_scores_try example_bw (normalize_chrom ''2'') 0 10 = Inl e)"
    using c n by blast
  from unavailable_lookup_omitted[OF h, of example_tracker "''+''"] k p
  have "snd (get_scores example_bw ''2'' 0 10) = None \<and>
     1 \<notin> fst ` set (fst (snd (get_conservation_scores example_tracker ''2'' 0 10 ''+''))) \<and>
     snd (snd (get_conservation_scores example_tracker ''2'' 0 10 ''+'')) = None"
    by simp
  with c n k show ?thesis by simp
qed


lemma normalize_chrom_idem: "normalize_chrom (normalize_chrom c) = normalize_chrom c"
  by (simp add: normalize_chrom_def)

lemma get_scores_normalized: "get_scores bw (normalize_chrom c) s e = get_scores bw c s e"
  by (simp add: get_scores_def normalize_chrom_idem)

lemma frame_step_normalized:
  "frame_step t (normalize_chrom c) s e sd = frame_step t c s e sd"
  by (intro ext) (simp add: frame_step_def get_scores_normalized split: option.splits)

lemma get_conservation_scores_normalized:
  "get_conservation_scores t (normalize_chrom c) s e sd = get_conservation_scores t c s e sd"
  by (simp add: get_conservation_scores_def get_scores_normalized frame_step_normalized)

lemma get_scores_try_agree:
  assumes "case chroms bw of
             Inl x \<Rightarrow> chroms bw' = Inl x
           | Inr cat \<Rightarrow> (\<exists>cat'. chroms bw' = Inr cat' \<and> (cat' k = None) = (cat k = None))"
    and "chroms_of bw' k = chroms_of bw k"
    and "bw_values bw' k s e = bw_values bw k s e"
  shows "get_scores_try bw' k s e = get_scores_try bw k s e"
  using assms by (auto simp: get_scores_try_def split: sum.splits)

text \<open>
  C6. The name gets the prefix \<^verbatim>\<open>chr\<close> exactly when it does not start with it, so \<^verbatim>\<open>1\<close> and
  \<^verbatim>\<open>chr1\<close> give the same lookup; normalising twice changes nothing; and a lookup reads the
  track only at the normalised name: two tracks that agree on the catalog membership, the
  declared length and the values of the normalised name give the same result.
\<close>

theorem chromosome_normalization:
  "normalize_chrom ''1'' = ''chr1'' \<and>
   normalize_chrom ''chr1'' = ''chr1'' \<and>
   (prefix ''chr'' c \<longrightarrow> normalize_chrom c = c) \<and>
   (\<not> prefix ''chr'' c \<longrightarrow> normalize_chrom c = ''chr'' @ c) \<and>
   normalize_chrom (normalize_chrom c) = normalize_chrom c \<and>
   get_scores bw ''1'' s e = get_scores bw ''chr1'' s e \<and>
   get_conservation_scores t ''1'' s e sd = get_conservation_scores t ''chr1'' s e sd \<and>
   get_scores bw (normalize_chrom c) s e = get_scores bw c s e \<and>
   ((case chroms bw of
       Inl x \<Rightarrow> chroms bw' = Inl x
     | Inr cat \<Rightarrow>
         (\<exists>cat'. chroms bw' = Inr cat' \<and>
                 (cat' (normalize_chrom c) = None) = (cat (normalize_chrom c) = None))) \<and>
    chroms_of bw' (normalize_chrom c) = chroms_of bw (normalize_chrom c) \<and>
    bw_values bw' (normalize_chrom c) s e = bw_values bw (normalize_chrom c) s e \<longrightarrow>
    get_scores bw' c s e = get_scores bw c s e)"
proof (intro conjI impI)
  show n1: "normalize_chrom ''1'' = ''chr1''" by (simp add: normalize_chrom_def)
  show "normalize_chrom ''chr1'' = ''chr1''" by (simp add: normalize_chrom_def)
  show "normalize_chrom c = c" if "prefix ''chr'' c" using that by (simp add: normalize_chrom_def)
  show "normalize_chrom c = ''chr'' @ c" if "\<not> prefix ''chr'' c"
    using that by (simp add: normalize_chrom_def)
  show "normalize_chrom (normalize_chrom c) = normalize_chrom c" by (rule normalize_chrom_idem)
  show "get_scores bw ''1'' s e = get_scores bw ''chr1'' s e"
    using get_scores_normalized[of bw "''1''" s e] by (simp only: n1)
  show "get_conservation_scores t ''1'' s e sd = get_conservation_scores t ''chr1'' s e sd"
    using get_conservation_scores_normalized[of t "''1''" s e sd] by (simp only: n1)
  show "get_scores bw (normalize_chrom c) s e = get_scores bw c s e"
    by (rule get_scores_normalized)
  show "get_scores bw' c s e = get_scores bw c s e"
    if "(case chroms bw of
           Inl x \<Rightarrow> chroms bw' = Inl x
         | Inr cat \<Rightarrow>
             (\<exists>cat'. chroms bw' = Inr cat' \<and>
                     (cat' (normalize_chrom c) = None) = (cat (normalize_chrom c) = None))) \<and>
        chroms_of bw' (normalize_chrom c) = chroms_of bw (normalize_chrom c) \<and>
        bw_values bw' (normalize_chrom c) s e = bw_values bw (normalize_chrom c) s e"
  proof -
    from that have "get_scores_try bw' (normalize_chrom c) s e =
        get_scores_try bw (normalize_chrom c) s e"
      by (intro get_scores_try_agree) blast+
    then show ?thesis by (simp add: get_scores_def)
  qed
qed

theorem chromosome_normalization_witness:
  "prefix ''chr'' ''chrX'' \<and> normalize_chrom ''chrX'' = ''chrX'' \<and>
   \<not> prefix ''chr'' ''1'' \<and> normalize_chrom ''1'' = ''chr'' @ ''1'' \<and>
   chroms_of example_bw2 (normalize_chrom ''1'') = chroms_of example_bw (normalize_chrom ''1'') \<and>
   bw_values example_bw2 (normalize_chrom ''1'') 5 8 = bw_values example_bw (normalize_chrom ''1'') 5 8 \<and>
   get_scores example_bw2 ''1'' 5 8 = get_scores example_bw ''1'' 5 8 \<and>
   get_scores example_bw ''1'' 5 8 = ([], Some [Fin 1, Fin 1, Fin 1])"
proof -
  have a: "prefix ''chr'' ''chrX''" by simp
  have b: "\<not> prefix ''chr'' ''1''" by simp
  have n: "normalize_chrom ''1'' = ''chr1''" by (simp add: normalize_chrom_def)
  have c: "(case chroms example_bw of
       Inl x \<Rightarrow> chroms example_bw2 = Inl x
     | Inr cat \<Rightarrow>
         (\<exists>cat'. chroms example_bw2 = Inr cat' \<and>
                 (cat' (normalize_chrom ''1'') = None) = (cat (normalize_chrom ''1'') = None)))"
    by (simp add: example_bw_def example_bw2_def n)
  have d: "chroms_of example_bw2 (normalize_chrom ''1'') = chroms_of example_bw (normalize_chrom ''1'')"
    by (simp add: example_bw_def example_bw2_def n)
  have v: "bw_values example_bw2 (normalize_chrom ''1'') 5 8 =
           bw_values example_bw (normalize_chrom ''1'') 5 8"
    by (simp add: example_bw_def example_bw2_def n)
  have r: "get_scores example_bw ''1'' 5 8 = ([], Some [Fin 1, Fin 1, Fin 1])"
    by (simp add: get_scores_def get_scores_try_def n example_bw_def numeral_3_eq_3)
  have x: "normalize_chrom ''chrX'' = ''chrX''"
    using chromosome_normalization[of "''chrX''"] a by blast
  have y: "normalize_chrom ''1'' = ''chr'' @ ''1''"
    using chromosome_normalization[of "''1''"] b by blast
  have z: "get_scores example_bw2 ''1'' 5 8 = get_scores example_bw ''1'' 5 8"
    using chromosome_normalization[of "''1''" example_bw 5 8 _ _ example_bw2] c d v by blast
  from a b x y d v z r show ?thesis by blast
qed

section \<open>Score normalisation on write\<close>

lemma col_min_le: "col_min xs = Some mn \<Longrightarrow> x \<in> set xs \<Longrightarrow> mn \<le> x"
proof -
  assume a: "col_min xs = Some mn" and x: "x \<in> set xs"
  then obtain y ys where xs: "xs = y # ys" by (cases xs) auto
  with a have "mn = fold min ys y" by (simp add: col_min_def)
  also have "\<dots> = Min (set (y # ys))" by (rule Min.set_eq_fold[symmetric])
  finally show ?thesis using x xs by simp
qed

lemma col_max_ge: "col_max xs = Some mx \<Longrightarrow> x \<in> set xs \<Longrightarrow> x \<le> mx"
proof -
  assume a: "col_max xs = Some mx" and x: "x \<in> set xs"
  then obtain y ys where xs: "xs = y # ys" by (cases xs) auto
  with a have "mx = fold max ys y" by (simp add: col_max_def)
  also have "\<dots> = Max (set (y # ys))" by (rule Max.set_eq_fold[symmetric])
  finally show ?thesis using x xs by simp
qed

lemma zero_denominator_zero_numerator:
  assumes "col_min xs = Some mn" and "col_max xs = Some mx" and "mx - mn = 0" and "x \<in> set xs"
  shows "x - mn = 0"
  using col_min_le[OF assms(1,4)] col_max_ge[OF assms(2,4)] assms(3) by simp

lemma write_scored_bed_empty: "write_scored_bed float_eval [] s = Inr []"
  by (simp add: write_scored_bed_def col_min_def)

lemma normalized_score_range:
  "normalized_score float_eval v mn mx s = Inr n \<Longrightarrow> 0 \<le> n \<and> n \<le> 1000"
  by (auto simp: normalized_score_def clip_def split: sum.splits)

text \<open>
  Whatever the float evaluation: a frame that is written keeps its rows in order, each with
  its five other BED columns and a score between 0 and 1000.
\<close>

lemma score_column_rows:
  "score_column float_eval mn mx s rs = Inr out \<Longrightarrow>
   length out = length rs \<and>
   (\<forall>i < length rs.
      chrom (out ! i) = chrom (rs ! i) \<and> chromStart (out ! i) = chromStart (rs ! i) \<and>
      chromEnd (out ! i) = chromEnd (rs ! i) \<and> name (out ! i) = name (rs ! i) \<and>
      strand (out ! i) = strand (rs ! i) \<and> 0 \<le> score (out ! i) \<and> score (out ! i) \<le> 1000)"
proof (induction rs arbitrary: out)
  case Nil
  then show ?case by simp
next
  case (Cons r rs)
  from Cons.prems obtain n out' where n: "normalized_score float_eval (conservation_score r) mn mx s = Inr n"
    and o: "score_column float_eval mn mx s rs = Inr out'"
    and out: "out = \<lparr>chrom = chrom r, chromStart = chromStart r, chromEnd = chromEnd r,
                     name = name r, score = n, strand = strand r\<rparr> # out'"
    by (auto split: sum.splits)
  from Cons.IH[OF o] normalized_score_range[OF n] show ?case
    by (auto simp: out nth_Cons split: nat.splits)
qed

lemma write_scored_bed_rows:
  "write_scored_bed float_eval df s = Inr out \<Longrightarrow>
   length out = length df \<and>
   (\<forall>i < length df.
      chrom (out ! i) = chrom (df ! i) \<and> chromStart (out ! i) = chromStart (df ! i) \<and>
      chromEnd (out ! i) = chromEnd (df ! i) \<and> name (out ! i) = name (df ! i) \<and>
      strand (out ! i) = strand (df ! i) \<and> 0 \<le> score (out ! i) \<and> score (out ! i) \<le> 1000)"
proof (cases df)
  case Nil
  assume "write_scored_bed float_eval df s = Inr out"
  with Nil show ?thesis by (simp add: write_scored_bed_empty)
next
  case (Cons r rs)
  assume w: "write_scored_bed float_eval df s = Inr out"
  from Cons obtain mn mx where "col_min (map conservation_score df) = Some mn"
    "col_max (map conservation_score df) = Some mx"
    by (simp add: col_min_def col_max_def)
  with w have "score_column float_eval mn mx s df = Inr out" by (simp add: write_scored_bed_def)
  then show ?thesis by (rule score_column_rows)
qed

lemma score_column_constant:
  "rs \<noteq> [] \<Longrightarrow> score_column float_eval mn mn s rs = Inl InvalidOperationError"
  by (cases rs) (simp_all add: normalized_score_def scaled_score_def)

lemma write_scored_bed_constant:
  assumes "df \<noteq> []" and "\<forall>r \<in> set df. conservation_score r = v"
  shows "write_scored_bed float_eval df s = Inl InvalidOperationError"
proof -
  from assms obtain r rs where df: "df = r # rs" by (cases df) auto
  have all: "\<forall>x \<in> set (map conservation_score rs). x = v" using assms(2) df by simp
  have hd: "conservation_score r = v" using assms(2) df by simp
  have f: "fold min xs v = v \<and> fold max xs v = v" if "\<forall>x \<in> set xs. x = v" for xs :: "real list"
    using that by (induction xs) simp_all
  from f[OF all] hd have "col_min (map conservation_score df) = Some v"
      "col_max (map conservation_score df) = Some v"
    by (simp_all add: col_min_def col_max_def df)
  then show ?thesis using score_column_constant[OF assms(1)] by (simp add: write_scored_bed_def)
qed

text \<open>
  C8. On a constant score column the denominator \<open>max - min\<close> is 0 and nothing guards the
  division: every scaled score is NaN, the cast to \<^verbatim>\<open>Int64\<close> fails and no row is written,
  whatever the float evaluation.
\<close>

theorem write_scored_bed_constant_column_fails:
  "scaled_score float_eval 5 5 5 1000 = NaN \<and>
   write_scored_bed float_eval [example_row ''a'' 5, example_row ''b'' 5] 1000 =
     Inl InvalidOperationError \<and>
   write_scored_bed float_eval [example_row ''a'' 5] 1000 = Inl InvalidOperationError"
proof (intro conjI)
  show "scaled_score float_eval 5 5 5 1000 = NaN" by (simp add: scaled_score_def)
  show "write_scored_bed float_eval [example_row ''a'' 5, example_row ''b'' 5] 1000 =
     Inl InvalidOperationError"
    by (rule write_scored_bed_constant[where v = 5]) (simp_all add: example_row_def)
  show "write_scored_bed float_eval [example_row ''a'' 5] 1000 = Inl InvalidOperationError"
    by (rule write_scored_bed_constant[where v = 5]) (simp_all add: example_row_def)
qed

section \<open>The name deduplicator: names, fields and lines\<close>

lemma split_tab_nonempty: "split_tab s \<noteq> []"
  by (induction s) (auto split: list.splits)

lemma split_tab_no_tab: "f \<in> set (split_tab s) \<Longrightarrow> tab \<notin> set f"
proof (induction s arbitrary: f)
  case Nil
  then show ?case by simp
next
  case (Cons c cs)
  show ?case
  proof (cases "c = tab")
    case True
    with Cons show ?thesis by auto
  next
    case False
    obtain g gs where sp: "split_tab cs = g # gs"
      using split_tab_nonempty[of cs] by (cases "split_tab cs") auto
    with Cons.prems False have "f = c # g \<or> f \<in> set gs" by simp
    then show ?thesis
    proof
      assume "f = c # g"
      moreover have "tab \<notin> set g" using Cons.IH[of g] sp by simp
      ultimately show ?thesis using False by auto
    next
      assume "f \<in> set gs"
      then show ?thesis using Cons.IH[of f] sp by simp
    qed
  qed
qed

lemma join_split_tab: "join_tab (split_tab s) = s"
proof (induction s)
  case Nil
  then show ?case by simp
next
  case (Cons c cs)
  obtain g gs where sp: "split_tab cs = g # gs"
    using split_tab_nonempty[of cs] by (cases "split_tab cs") auto
  show ?case
  proof (cases "c = tab")
    case True
    with Cons sp show ?thesis by simp
  next
    case False
    with Cons sp show ?thesis by (cases gs) simp_all
  qed
qed

lemma split_tab_field: "tab \<notin> set f \<Longrightarrow> split_tab f = [f]"
  by (induction f) auto

lemma split_tab_append:
  "tab \<notin> set f \<Longrightarrow> split_tab (f @ tab # s) = f # split_tab s"
  by (induction f) auto

lemma split_join_tab:
  "fs \<noteq> [] \<Longrightarrow> \<forall>f \<in> set fs. tab \<notin> set f \<Longrightarrow> split_tab (join_tab fs) = fs"
proof (induction fs rule: join_tab.induct)
  case 1
  then show ?case by simp
next
  case (2 f)
  then show ?case by (simp add: split_tab_field)
next
  case (3 f g fs)
  then show ?case by (simp add: split_tab_append)
qed

lemma str_int_no_tab: "tab \<notin> set (str_int i)"
proof
  assume "tab \<in> set (str_int i)"
  then have "tab = CHR ''-'' \<or> tab \<in> set (str_nat (nat (- i))) \<or> tab \<in> set (str_nat (nat i))"
    by (auto simp: str_int_def split: if_splits)
  moreover have "tab \<noteq> CHR ''-''" by (simp add: tab_def)
  moreover have "tab \<notin> set (str_nat n)" for n
  proof
    assume "tab \<in> set (str_nat n)"
    then obtain d where d: "d < 10" "tab = digit_char d" using str_nat_digits by blast
    then have "of_char tab = (48 + d :: nat)" using of_char_digit_char[of d] by simp
    moreover have "of_char tab = (9 :: nat)" by (simp add: tab_def)
    ultimately show False by arith
  qed
  ultimately show False by blast
qed

lemma str_int_no_newline: "newline \<notin> set (str_int i)"
proof
  assume "newline \<in> set (str_int i)"
  then have "newline = CHR ''-'' \<or> newline \<in> set (str_nat (nat (- i))) \<or> newline \<in> set (str_nat (nat i))"
    by (auto simp: str_int_def split: if_splits)
  moreover have "newline \<noteq> CHR ''-''" by (simp add: newline_def)
  moreover have "newline \<notin> set (str_nat n)" for n
  proof
    assume "newline \<in> set (str_nat n)"
    then obtain d where d: "d < 10" "newline = digit_char d" using str_nat_digits by blast
    then have "of_char newline = (48 + d :: nat)" using of_char_digit_char[of d] by simp
    moreover have "of_char newline = (10 :: nat)" by (simp add: newline_def)
    ultimately show False by arith
  qed
  ultimately show False by blast
qed


lemma occurrences_snoc:
  "occurrences n (pre @ [l]) = occurrences n pre + (if parsed_name l = Some n then 1 else 0)"
  by (simp add: occurrences_def)

lemma dedup_loop_step:
  assumes "\<forall>n. nc n = int (occurrences n pre)"
  shows "\<exists>nc'. (\<forall>n. nc' n = int (occurrences n (pre @ [l]))) \<and>
           dedup_loop (l # ls) nc acc = dedup_loop ls nc' (acc @ [out_line pre l])"
proof (cases "length (split_tab (strip l)) \<ge> 4")
  case False
  then have "parsed_name l = None" by (simp add: parsed_name_def)
  then have "\<forall>n. nc n = int (occurrences n (pre @ [l]))"
    using assms by (simp add: occurrences_snoc)
  moreover from False have "dedup_loop (l # ls) nc acc = dedup_loop ls nc (acc @ [out_line pre l])"
    by (simp add: out_line_def)
  ultimately show ?thesis by blast
next
  case True
  define fields where "fields = split_tab (strip l)"
  define nm where "nm = fields ! 3"
  define nc' where "nc' = nc(nm := nc nm + 1)"
  from True have nl: "parsed_name l = Some nm" by (simp add: parsed_name_def fields_def nm_def)
  have inv: "\<forall>n. nc' n = int (occurrences n (pre @ [l]))"
    using assms nl by (auto simp: nc'_def occurrences_snoc)
  have cnt: "nc' nm = int (occurrences nm pre) + 1" using assms by (simp add: nc'_def)
  have ncn: "nc nm = int (occurrences nm pre)" using assms by simp
  have out: "out_line pre l = join_tab (fields[3 := dedup_name (occurrences nm pre) nm])"
    using True by (simp add: out_line_def fields_def nm_def Let_def)
  have unfold: "dedup_loop (l # ls) nc acc =
      (if nc' nm > 1
       then dedup_loop ls nc'
              (acc @ [join_tab (fields[3 := nm @ ''_dup'' @ str_int (nc' nm - 1)])])
       else dedup_loop ls nc' (acc @ [join_tab fields]))"
    using True by (simp add: fields_def nm_def nc'_def Let_def)
  have "dedup_loop (l # ls) nc acc = dedup_loop ls nc' (acc @ [out_line pre l])"
  proof (cases "occurrences nm pre = 0")
    case z: True
    then have "fields[3 := dedup_name (occurrences nm pre) nm] = fields"
      by (simp add: dedup_name_def nm_def)
    moreover from z cnt have "\<not> nc' nm > 1" by simp
    ultimately show ?thesis by (simp only: unfold out if_False)
  next
    case nz: False
    then have "1 < nc' nm" using cnt by simp
    moreover have "nc' nm - 1 = int (occurrences nm pre)" using cnt by simp
    moreover have "dedup_name (occurrences nm pre) nm =
        nm @ ''_dup'' @ str_int (int (occurrences nm pre))"
      using nz by (simp add: dedup_name_def)
    ultimately show ?thesis by (simp only: unfold out if_True)
  qed
  with inv show ?thesis by blast
qed

lemma dedup_loop_eq:
  "\<forall>n. nc n = int (occurrences n pre) \<Longrightarrow> dedup_loop ls nc acc = acc @ dedup_from pre ls"
proof (induction ls arbitrary: nc acc pre)
  case Nil
  then show ?case by simp
next
  case (Cons l ls)
  from dedup_loop_step[OF Cons.prems, of l ls acc]
  obtain nc' where inv: "\<forall>n. nc' n = int (occurrences n (pre @ [l]))"
    and step: "dedup_loop (l # ls) nc acc = dedup_loop ls nc' (acc @ [out_line pre l])"
    by blast
  from Cons.IH[OF inv] step show ?case by simp
qed

lemma dedup_lines_eq: "dedup_lines ls = dedup_from [] ls"
  using dedup_loop_eq[of "\<lambda>_. 0" "[]" ls "[]"] by (simp add: dedup_lines_def occurrences_def)

lemma dedup_from_length: "length (dedup_from pre ls) = length ls"
  by (induction ls arbitrary: pre) simp_all

lemma dedup_from_nth:
  "i < length ls \<Longrightarrow> dedup_from pre ls ! i = out_line (pre @ take i ls) (ls ! i)"
proof (induction ls arbitrary: pre i)
  case Nil
  then show ?case by simp
next
  case (Cons l ls)
  then show ?case by (cases i) simp_all
qed

lemma dedup_lines_length: "length (dedup_lines ls) = length ls"
  by (simp add: dedup_lines_eq dedup_from_length)

lemma dedup_lines_nth: "i < length ls \<Longrightarrow> dedup_lines ls ! i = out_line (take i ls) (ls ! i)"
  by (simp add: dedup_lines_eq dedup_from_nth)


lemma dedup_name_no_tab: "tab \<notin> set nm \<Longrightarrow> tab \<notin> set (dedup_name k nm)"
  using str_int_no_tab[of "int k"] by (simp add: dedup_name_def tab_def)

lemma out_line_fields:
  "split_tab (out_line prev line) =
     (let fields = split_tab (strip line)
      in if length fields \<ge> 4
         then fields[3 := dedup_name (occurrences (fields ! 3) prev) (fields ! 3)]
         else fields)"
proof (cases "length (split_tab (strip line)) \<ge> 4")
  case False
  have "split_tab (join_tab (split_tab (strip line))) = split_tab (strip line)"
    by (simp only: join_split_tab)
  with False show ?thesis by (simp add: out_line_def)
next
  case True
  define fields where "fields = split_tab (strip line)"
  define nm' where "nm' = dedup_name (occurrences (fields ! 3) prev) (fields ! 3)"
  have nt: "\<forall>f \<in> set fields. tab \<notin> set f" using split_tab_no_tab by (auto simp: fields_def)
  from True have "fields ! 3 \<in> set fields" by (simp add: fields_def)
  with nt have "tab \<notin> set nm'" unfolding nm'_def by (intro dedup_name_no_tab) blast
  moreover have "set (fields[3 := nm']) \<subseteq> insert nm' (set fields)"
    by (rule set_update_subset_insert)
  ultimately have "\<forall>f \<in> set (fields[3 := nm']). tab \<notin> set f" using nt by blast
  moreover from True have "fields[3 := nm'] \<noteq> []" by (auto simp: fields_def)
  ultimately have "split_tab (join_tab (fields[3 := nm'])) = fields[3 := nm']"
    by (intro split_join_tab)
  with True show ?thesis by (simp add: out_line_def fields_def nm'_def Let_def)
qed

lemma dedup_example:
  "map (\<lambda>l. split_tab l ! 3)
     (dedup_lines [example_record ''a'', example_record ''b'', example_record ''a'',
                   example_record ''a'']) = [''a'', ''b'', ''a_dup1'', ''a_dup2'']"
  by code_simp

lemma strip_subset: "set (strip s) \<subseteq> set s"
proof -
  have "set (dropWhile is_space (rev (dropWhile is_space s))) \<subseteq> set (rev (dropWhile is_space s))"
    by (auto dest: set_dropWhileD)
  also have "\<dots> \<subseteq> set s" by (auto dest: set_dropWhileD)
  finally show ?thesis by (simp add: strip_def)
qed

lemma strip_snoc_space: "is_space x \<Longrightarrow> strip (b @ [x]) = strip b"
proof (cases "\<forall>c \<in> set b. is_space c")
  case True
  assume "is_space x"
  with True have "\<forall>c \<in> set (b @ [x]). is_space c" by simp
  then have "dropWhile is_space (b @ [x]) = []" by (rule dropWhile_eq_Nil_conv[THEN iffD2])
  moreover from True have "dropWhile is_space b = []" by (rule dropWhile_eq_Nil_conv[THEN iffD2])
  ultimately show ?thesis by (simp only: strip_def)
next
  case False
  assume x: "is_space x"
  from False obtain c where "c \<in> set b" "\<not> is_space c" by blast
  then have "dropWhile is_space (b @ [x]) = dropWhile is_space b @ [x]"
    by (rule dropWhile_append1)
  with x show ?thesis by (simp add: strip_def)
qed

lemma strip_id:
  assumes "s = [] \<or> (\<not> is_space (hd s) \<and> \<not> is_space (last s))"
  shows "strip s = s"
proof (cases s)
  case Nil
  then show ?thesis by (simp add: strip_def)
next
  case (Cons c cs)
  with assms have h: "\<not> is_space c" and l: "\<not> is_space (last s)" by simp_all
  from h Cons have d: "dropWhile is_space s = s" by simp
  from Cons obtain b x where bx: "s = b @ [x]" by (metis rev_exhaust list.distinct(1))
  with l have "\<not> is_space x" by simp
  then have "dropWhile is_space (rev s) = rev s" by (simp add: bx)
  with d show ?thesis by (simp add: strip_def)
qed

lemma is_space_newline: "is_space newline"
  by (simp add: is_space_def newline_def)

lemma strip_chomp: "strip l = strip (chomp l)"
proof (cases "l \<noteq> [] \<and> last l = newline")
  case True
  then have "l = butlast l @ [newline]" by (metis append_butlast_last_id)
  then have "strip l = strip (butlast l)"
    using strip_snoc_space[OF is_space_newline, of "butlast l"] by simp
  with True show ?thesis by (simp add: chomp_def)
next
  case False
  then show ?thesis by (auto simp: chomp_def)
qed

lemma strip_clean: "no_outer_space l \<Longrightarrow> strip l = chomp l"
  using strip_id[of "chomp l"] strip_chomp[of l] by (simp add: no_outer_space_def)

lemma file_lines_shape:
  "l \<in> set (file_lines c) \<Longrightarrow> l \<noteq> [] \<and> newline \<notin> set (butlast l)"
proof (induction c arbitrary: l)
  case Nil
  then show ?case by simp
next
  case (Cons x c)
  show ?case
  proof (cases "x = newline")
    case True
    with Cons show ?thesis by auto
  next
    case False
    show ?thesis
    proof (cases "file_lines c")
      case Nil
      with Cons.prems False show ?thesis by simp
    next
      case (Cons m ms)
      with Cons.prems False have "l = x # m \<or> l \<in> set ms" by simp
      then show ?thesis
      proof
        assume l: "l = x # m"
        have "m \<noteq> [] \<and> newline \<notin> set (butlast m)" using Cons.IH[of m] Cons by simp
        with l False show ?thesis by auto
      next
        assume "l \<in> set ms"
        then show ?thesis using Cons.IH[of l] Cons by simp
      qed
    qed
  qed
qed

lemma strip_file_line_no_newline:
  assumes "l \<in> set (file_lines c)"
  shows "newline \<notin> set (strip l)"
proof -
  from file_lines_shape[OF assms] have ne: "l \<noteq> []" and nb: "newline \<notin> set (butlast l)"
    by simp_all
  from ne have l: "l = butlast l @ [last l]" by simp
  show ?thesis
  proof (cases "is_space (last l)")
    case True
    then have "strip l = strip (butlast l)"
      using strip_snoc_space[of "last l" "butlast l"] l by simp
    with nb strip_subset[of "butlast l"] show ?thesis by auto
  next
    case False
    then have "last l \<noteq> newline" using is_space_newline by auto
    with nb l have "newline \<notin> set l" by (metis Un_iff empty_iff empty_set set_ConsD set_append)
    with strip_subset[of l] show ?thesis by auto
  qed
qed

lemma join_tab_chars: "c \<in> set (join_tab fs) \<Longrightarrow> c = tab \<or> (\<exists>f \<in> set fs. c \<in> set f)"
  by (induction fs rule: join_tab.induct) auto

lemma dedup_name_no_newline: "newline \<notin> set nm \<Longrightarrow> newline \<notin> set (dedup_name k nm)"
  using str_int_no_newline[of "int k"] by (simp add: dedup_name_def newline_def)

lemma split_tab_chars: "f \<in> set (split_tab s) \<Longrightarrow> set f \<subseteq> set s"
proof -
  assume f: "f \<in> set (split_tab s)"
  have "set (join_tab fs) \<supseteq> set g" if "g \<in> set fs" for fs g
    using that by (induction fs rule: join_tab.induct) auto
  from this[OF f] show ?thesis by (simp add: join_split_tab)
qed

lemma out_line_no_newline:
  assumes "newline \<notin> set (strip line)"
  shows "newline \<notin> set (out_line prev line)"
proof
  assume n: "newline \<in> set (out_line prev line)"
  define fields where "fields = split_tab (strip line)"
  have nf: "\<forall>f \<in> set fields. newline \<notin> set f"
    using split_tab_chars assms by (fastforce simp: fields_def)
  have nt: "newline \<noteq> tab" by (simp add: newline_def tab_def)
  show False
  proof (cases "length fields \<ge> 4")
    case False
    with n have "newline \<in> set (join_tab fields)" by (simp add: out_line_def fields_def)
    with nf nt show False using join_tab_chars by blast
  next
    case True
    define nm' where "nm' = dedup_name (occurrences (fields ! 3) prev) (fields ! 3)"
    from True have "fields ! 3 \<in> set fields" by simp
    with nf have "newline \<notin> set nm'" unfolding nm'_def by (intro dedup_name_no_newline) blast
    moreover have "set (fields[3 := nm']) \<subseteq> insert nm' (set fields)"
      by (rule set_update_subset_insert)
    ultimately have "\<forall>f \<in> set (fields[3 := nm']). newline \<notin> set f" using nf by blast
    moreover from True n have "newline \<in> set (join_tab (fields[3 := nm']))"
      by (simp add: out_line_def fields_def nm'_def Let_def)
    ultimately show False using nt join_tab_chars by blast
  qed
qed

lemma file_lines_line:
  "newline \<notin> set l \<Longrightarrow> file_lines (l @ newline # rest) = (l @ [newline]) # file_lines rest"
  by (induction l) auto

lemma file_lines_concat:
  "\<forall>l \<in> set outs. newline \<notin> set l \<Longrightarrow>
   file_lines (concat (map (\<lambda>l. l @ [newline]) outs)) = map (\<lambda>l. l @ [newline]) outs"
  by (induction outs) (simp_all add: file_lines_line)

lemma dedup_lines_no_newline:
  assumes "l \<in> set (dedup_lines (file_lines c))"
  shows "newline \<notin> set l"
proof -
  from assms obtain i where i: "i < length (file_lines c)" and l: "l = dedup_lines (file_lines c) ! i"
    by (metis in_set_conv_nth dedup_lines_length)
  from i have "file_lines c ! i \<in> set (file_lines c)" by simp
  then have "newline \<notin> set (strip (file_lines c ! i))" by (rule strip_file_line_no_newline)
  then show ?thesis using i l by (simp add: dedup_lines_nth out_line_no_newline)
qed

lemma make_names_unique_lines:
  "file_lines (make_names_unique c) = map (\<lambda>l. l @ [newline]) (dedup_lines (file_lines c))"
  unfolding make_names_unique_def
  by (rule file_lines_concat) (simp add: dedup_lines_no_newline)


lemma parsed_name_clean: "no_outer_space l \<Longrightarrow> parsed_name l = record_name l"
  by (simp add: parsed_name_def record_name_def strip_clean)

lemma occurrences_clean:
  "\<forall>l \<in> set ls. no_outer_space l \<Longrightarrow> occurrences nm ls = name_occurrences nm ls"
proof -
  assume "\<forall>l \<in> set ls. no_outer_space l"
  then have "filter (\<lambda>l. parsed_name l = Some nm) ls = filter (\<lambda>l. record_name l = Some nm) ls"
    by (intro filter_cong) (simp_all add: parsed_name_clean)
  then show ?thesis by (simp add: occurrences_def name_occurrences_def)
qed

lemma dedup_lines_name:
  assumes "i < length ls" and "parsed_name (ls ! i) = Some nm"
  shows "4 \<le> length (split_tab (dedup_lines ls ! i)) \<and>
         split_tab (dedup_lines ls ! i) ! 3 = dedup_name (occurrences nm (take i ls)) nm"
proof -
  define fields where "fields = split_tab (strip (ls ! i))"
  from assms(2) have len: "4 \<le> length fields" and nm: "fields ! 3 = nm"
    by (auto simp: parsed_name_def fields_def Let_def split: if_splits)
  from assms(1) have "split_tab (dedup_lines ls ! i) = split_tab (out_line (take i ls) (ls ! i))"
    by (simp add: dedup_lines_nth)
  also have "\<dots> = fields[3 := dedup_name (occurrences nm (take i ls)) nm]"
    using len nm by (simp add: out_line_fields fields_def[symmetric] Let_def)
  finally have eq: "split_tab (dedup_lines ls ! i) =
      fields[3 := dedup_name (occurrences nm (take i ls)) nm]" .
  show ?thesis using len by (simp add: eq)
qed

text \<open>
  C9 (amended). The name that is compared and written is the fourth tab-separated field of
  the line after \<^verbatim>\<open>line.strip()\<close>: it is written unchanged when no earlier line has the same
  stripped-line field, and with \<^verbatim>\<open>_dup{k}\<close> appended when \<open>k > 0\<close> earlier lines have it (the
  second occurrence gets \<^verbatim>\<open>_dup1\<close>, the third \<^verbatim>\<open>_dup2\<close>). On a line without whitespace at its
  ends, apart from its line feed, that field is the record's fourth column; so for an input
  whose lines are all of this kind the first occurrence of each name is left as it is and
  the duplicate with \<open>k\<close> earlier occurrences gets \<^verbatim>\<open>_dup{k}\<close>. The names a, b, a, a become
  \<^verbatim>\<open>a, b, a_dup1, a_dup2\<close>.
\<close>

theorem duplicate_names_suffixed:
  "(i < length ls \<and> parsed_name (ls ! i) = Some nm \<longrightarrow>
      4 \<le> length (split_tab (dedup_lines ls ! i)) \<and>
      split_tab (dedup_lines ls ! i) ! 3 = dedup_name (occurrences nm (take i ls)) nm) \<and>
   (no_outer_space l \<longrightarrow> parsed_name l = record_name l) \<and>
   ((\<forall>l \<in> set ls. no_outer_space l) \<and> i < length ls \<and> record_name (ls ! i) = Some nm \<longrightarrow>
      4 \<le> length (split_tab (dedup_lines ls ! i)) \<and>
      split_tab (dedup_lines ls ! i) ! 3 = dedup_name (name_occurrences nm (take i ls)) nm) \<and>
   dedup_name 0 nm = nm \<and>
   dedup_name 1 nm = nm @ ''_dup1'' \<and>
   dedup_name 2 nm = nm @ ''_dup2'' \<and>
   map record_name
     [example_record ''a'', example_record ''b'', example_record ''a'', example_record ''a''] =
     [Some ''a'', Some ''b'', Some ''a'', Some ''a''] \<and>
   map (\<lambda>l. split_tab l ! 3)
     (dedup_lines [example_record ''a'', example_record ''b'', example_record ''a'',
                   example_record ''a'']) = [''a'', ''b'', ''a_dup1'', ''a_dup2'']"
proof (intro conjI impI)
  assume a: "i < length ls \<and> parsed_name (ls ! i) = Some nm"
  then have r: "4 \<le> length (split_tab (dedup_lines ls ! i)) \<and>
      split_tab (dedup_lines ls ! i) ! 3 = dedup_name (occurrences nm (take i ls)) nm"
    using dedup_lines_name[of i ls nm] by blast
  from r show "4 \<le> length (split_tab (dedup_lines ls ! i))" by blast
  from r show "split_tab (dedup_lines ls ! i) ! 3 = dedup_name (occurrences nm (take i ls)) nm"
    by blast
next
  show "parsed_name l = record_name l" if "no_outer_space l" using that by (rule parsed_name_clean)
next
  assume a: "(\<forall>l \<in> set ls. no_outer_space l) \<and> i < length ls \<and> record_name (ls ! i) = Some nm"
  then have "no_outer_space (ls ! i)" by simp
  with a have p: "parsed_name (ls ! i) = Some nm" by (simp add: parsed_name_clean)
  from a have "\<forall>l \<in> set (take i ls). no_outer_space l" by (auto dest: in_set_takeD)
  then have o: "occurrences nm (take i ls) = name_occurrences nm (take i ls)"
    by (rule occurrences_clean)
  from a p have r: "4 \<le> length (split_tab (dedup_lines ls ! i)) \<and>
      split_tab (dedup_lines ls ! i) ! 3 = dedup_name (occurrences nm (take i ls)) nm"
    using dedup_lines_name[of i ls nm] by blast
  from r show "4 \<le> length (split_tab (dedup_lines ls ! i))" by blast
  from r o show "split_tab (dedup_lines ls ! i) ! 3 =
      dedup_name (name_occurrences nm (take i ls)) nm"
    by simp
next
  show "dedup_name 0 nm = nm" by (simp add: dedup_name_def)
  have "str_int (int 1) = ''1''" "str_int (int 2) = ''2''" using str_int_1 by simp_all
  then show "dedup_name 1 nm = nm @ ''_dup1''" "dedup_name 2 nm = nm @ ''_dup2''"
    by (simp_all add: dedup_name_def)
  show "map record_name
     [example_record ''a'', example_record ''b'', example_record ''a'', example_record ''a''] =
     [Some ''a'', Some ''b'', Some ''a'', Some ''a'']"
    by code_simp
  show "map (\<lambda>l. split_tab l ! 3)
     (dedup_lines [example_record ''a'', example_record ''b'', example_record ''a'',
                   example_record ''a'']) = [''a'', ''b'', ''a_dup1'', ''a_dup2'']"
    by (rule dedup_example)
qed

theorem duplicate_names_suffixed_witness:
  "(1 :: nat) < length [example_record ''x'', example_record ''x''] \<and>
   no_outer_space (example_record ''x'') \<and>
   parsed_name (example_record ''x'') = Some ''x'' \<and>
   record_name ([example_record ''x'', example_record ''x''] ! 1) = Some ''x'' \<and>
   name_occurrences ''x'' (take 1 [example_record ''x'', example_record ''x'']) = 1 \<and>
   occurrences ''x'' (take 1 [example_record ''x'', example_record ''x'']) = 1 \<and>
   split_tab (dedup_lines [example_record ''x'', example_record ''x''] ! 1) ! 3 = ''x_dup1''"
proof -
  let ?ls = "[example_record ''x'', example_record ''x'']"
  have c: "no_outer_space (example_record ''x'')" by code_simp
  have n: "record_name (example_record ''x'') = Some ''x''" by code_simp
  have pn: "parsed_name (example_record ''x'') = record_name (example_record ''x'')"
    using duplicate_names_suffixed[of 0 "[]" "[]" "example_record ''x''"] c by blast
  have h: "(\<forall>l \<in> set ?ls. no_outer_space l) \<and> (1 :: nat) < length ?ls \<and>
      record_name (?ls ! 1) = Some ''x''"
    by (simp add: c n)
  have h': "(1 :: nat) < length ?ls \<and> parsed_name (?ls ! 1) = Some ''x''"
    by (simp add: pn n)
  have o: "name_occurrences ''x'' (take 1 ?ls) = 1" by (simp add: name_occurrences_def n)
  have o': "occurrences ''x'' (take 1 ?ls) = 1" by (simp add: occurrences_def pn n)
  have d: "dedup_name 1 ''x'' = ''x_dup1''"
    using duplicate_names_suffixed[of 0 "[]" "''x''" "[]"] by simp
  have "split_tab (dedup_lines ?ls ! 1) ! 3 = dedup_name (name_occurrences ''x'' (take 1 ?ls)) ''x''"
    using duplicate_names_suffixed[of 1 ?ls "''x''" "[]"] h by blast
  moreover have "split_tab (dedup_lines ?ls ! 1) ! 3 = dedup_name (occurrences ''x'' (take 1 ?ls)) ''x''"
    using duplicate_names_suffixed[of 1 ?ls "''x''" "[]"] h' by blast
  ultimately have "split_tab (dedup_lines ?ls ! 1) ! 3 = ''x_dup1''" by (simp only: o d)
  with c n pn h o o' show ?thesis by simp
qed

text \<open>
  A name with a trailing space in the last column is not left as it is: the first
  occurrence of \<^verbatim>\<open>a \<close> is written \<^verbatim>\<open>a\<close>, and the record named \<^verbatim>\<open>a\<close> that follows it is
  written \<^verbatim>\<open>a_dup1\<close> although the two names differ. On a line with a leading tab the field
  that is renamed is the fifth column of the input.
\<close>

theorem stripped_name_is_rewritten:
  "record_name (join_tab [''chr1'', ''10'', ''20'', ''a ''] @ [newline]) = Some ''a '' \<and>
   split_tab (dedup_lines [join_tab [''chr1'', ''10'', ''20'', ''a ''] @ [newline]] ! 0) ! 3 = ''a'' \<and>
   record_name (example_record ''a'') = Some ''a'' \<and>
   map (\<lambda>l. split_tab l ! 3)
     (dedup_lines [join_tab [''chr1'', ''10'', ''20'', ''a ''] @ [newline], example_record ''a'']) =
     [''a'', ''a_dup1''] \<and>
   record_name (tab # example_record ''n'') = Some ''20'' \<and>
   split_tab (chomp (tab # example_record ''n'')) = [[], ''chr1'', ''10'', ''20'', ''n''] \<and>
   map split_tab (dedup_lines [tab # example_record ''n'', tab # example_record ''n'']) =
     [[''chr1'', ''10'', ''20'', ''n''], [''chr1'', ''10'', ''20'', ''n_dup1'']]"
  by code_simp

text \<open>
  C10 (amended). The output has one line per input line, in the input order. The fields of
  an output line are the tab-separated fields of the stripped input line, the same in
  number and, except for the fourth, the same in content; a stripped line with fewer than
  four fields is written as it is. For a line without whitespace at its ends, apart from
  its line feed, these are the fields of the input line itself.
\<close>

theorem dedup_preserves_lines_and_fields:
  "length (dedup_lines ls) = length ls \<and>
   (i < length ls \<longrightarrow>
      length (split_tab (dedup_lines ls ! i)) = length (split_tab (strip (ls ! i))) \<and>
      (\<forall>j. j < length (split_tab (strip (ls ! i))) \<and> j \<noteq> 3 \<longrightarrow>
           split_tab (dedup_lines ls ! i) ! j = split_tab (strip (ls ! i)) ! j) \<and>
      (length (split_tab (strip (ls ! i))) < 4 \<longrightarrow> dedup_lines ls ! i = strip (ls ! i))) \<and>
   (no_outer_space l \<longrightarrow> split_tab (strip l) = split_tab (chomp l)) \<and>
   file_lines (make_names_unique content) =
     map (\<lambda>l. l @ [newline]) (dedup_lines (file_lines content)) \<and>
   length (file_lines (make_names_unique content)) = length (file_lines content)"
proof (intro conjI impI allI)
  show "length (dedup_lines ls) = length ls" by (rule dedup_lines_length)
  show "split_tab (strip l) = split_tab (chomp l)" if "no_outer_space l"
    using that by (simp add: strip_clean)
  show "file_lines (make_names_unique content) =
     map (\<lambda>l. l @ [newline]) (dedup_lines (file_lines content))"
    by (rule make_names_unique_lines)
  show "length (file_lines (make_names_unique content)) = length (file_lines content)"
    by (simp add: make_names_unique_lines dedup_lines_length)
next
  assume i: "i < length ls"
  define fields where "fields = split_tab (strip (ls ! i))"
  have eq: "split_tab (dedup_lines ls ! i) =
      (if length fields \<ge> 4
       then fields[3 := dedup_name (occurrences (fields ! 3) (take i ls)) (fields ! 3)]
       else fields)"
    using i by (simp add: dedup_lines_nth out_line_fields fields_def Let_def)
  show "length (split_tab (dedup_lines ls ! i)) = length (split_tab (strip (ls ! i)))"
    by (simp add: eq fields_def[symmetric])
  show "split_tab (dedup_lines ls ! i) ! j = split_tab (strip (ls ! i)) ! j"
    if "j < length (split_tab (strip (ls ! i))) \<and> j \<noteq> 3" for j
    using that by (simp add: eq fields_def[symmetric])
  show "dedup_lines ls ! i = strip (ls ! i)" if "length (split_tab (strip (ls ! i))) < 4"
    using that i by (simp add: dedup_lines_nth out_line_def join_split_tab)
qed

theorem dedup_preserves_lines_and_fields_witness:
  "(0 :: nat) < length [example_record ''a''] \<and>
   (2 :: nat) < length (split_tab (strip (example_record ''a''))) \<and>
   split_tab (dedup_lines [example_record ''a''] ! 0) ! 2 =
     split_tab (strip ([example_record ''a''] ! 0)) ! 2 \<and>
   split_tab (strip ([example_record ''a''] ! 0)) ! 2 = ''20'' \<and>
   length (split_tab (strip ([''chr1'' @ [newline]] ! 0))) < 4 \<and>
   dedup_lines [''chr1'' @ [newline]] ! 0 = ''chr1'' \<and>
   no_outer_space (example_record ''a'') \<and>
   split_tab (strip (example_record ''a'')) = split_tab (chomp (example_record ''a''))"
proof -
  let ?r = "example_record ''a''"
  let ?s = "''chr1'' @ [newline]"
  have f: "split_tab (strip ([?r] ! 0)) = [''chr1'', ''10'', ''20'', ''a'']"
    by code_simp
  have h1: "(0 :: nat) < length [?r]" by simp
  have h2: "(2 :: nat) < length (split_tab (strip ([?r] ! 0))) \<and> (2 :: nat) \<noteq> 3"
    by (simp only: f) simp
  have h3: "(0 :: nat) < length [?s]" by simp
  have h4: "length (split_tab (strip ([?s] ! 0))) < 4" by code_simp
  have g: "strip ([?s] ! 0) = ''chr1''" by code_simp
  have n: "no_outer_space ?r" by code_simp
  have a: "split_tab (dedup_lines [?r] ! 0) ! 2 = split_tab (strip ([?r] ! 0)) ! 2"
    using dedup_preserves_lines_and_fields[of "[?r]" 0 "[]" "[]"] h1 h2 by blast
  have b: "dedup_lines [?s] ! 0 = strip ([?s] ! 0)"
    using dedup_preserves_lines_and_fields[of "[?s]" 0 "[]" "[]"] h3 h4 by blast
  have c: "split_tab (strip ?r) = split_tab (chomp ?r)"
    using dedup_preserves_lines_and_fields[of "[]" 0 ?r "[]"] n by blast
  have f2: "split_tab (strip ([?r] ! 0)) ! 2 = ''20''" by (simp only: f) simp
  have h2': "(2 :: nat) < length (split_tab (strip ?r))" using h2 by simp
  from h1 h2' a f2 h4 b g n c show ?thesis by (simp only: simp_thms)
qed

text \<open>
  Fields of the input line itself are not always kept: on a line with whitespace at its
  ends a leading space of the first field is removed, empty trailing fields disappear, and
  a short line is not written through unchanged.
\<close>

theorem strip_changes_fields:
  "split_tab (chomp (join_tab ['' x'', ''1'', ''2'', ''n''] @ [newline])) ! 0 = '' x'' \<and>
   split_tab (dedup_lines [join_tab ['' x'', ''1'', ''2'', ''n''] @ [newline]] ! 0) ! 0 = ''x'' \<and>
   length (split_tab (chomp (join_tab [''x'', ''1'', ''2'', ''n'', [], []] @ [newline]))) = 6 \<and>
   length (split_tab (dedup_lines [join_tab [''x'', ''1'', ''2'', ''n'', [], []] @ [newline]] ! 0)) = 4 \<and>
   make_names_unique ('' a'' @ [newline]) = ''a'' @ [newline]"
  by code_simp

end
